theory Spec2Isabelle
  imports Main "HOL-Library.Word" "HOL-Library.Sublist"
begin

unbundle bit_operations_syntax

section \<open>Data model\<close>

text \<open>
  The byte source behind the scanner (\<^verbatim>\<open>io.Reader\<close>) is the list of bytes it has
  not delivered yet.  Go strings are byte sequences; a string read from the file is the
  list of its bytes as characters.  Unsigned and signed integers of one width share a
  word type; the constructor of \<open>val\<close> records how Go types the value.  Floats are
  kept as their IEEE-754 bit patterns (\<^verbatim>\<open>math.Float32frombits\<close> is a reinterpretation).
  Go's \<^verbatim>\<open>int\<close> is taken as 64 bits wide.  The range checks of \<^verbatim>\<open>make\<close> are part of
  the model (\<open>maxAlloc\<close> below); running out of memory or of call stack within those
  ranges is not.
\<close>

type_synonym byte = "8 word"
type_synonym u16 = "16 word"
type_synonym u32 = "32 word"
type_synonym u64 = "64 word"

datatype ByteOrder = LittleEndian | BigEndian

text \<open>
  Errors are values.  \<open>EOF\<close> and \<open>ErrUnexpectedEOF\<close> are what \<^verbatim>\<open>io.ReadFull\<close> returns on
  a short read; the others are the \<^verbatim>\<open>fmt.Errorf\<close> values of the source.  A run-time
  panic of Go (index out of range, negative length for \<^verbatim>\<open>make\<close>, nil interface) is the
  constructor \<open>Panic\<close>: it leaves every function at once and is never wrapped.
\<close>

datatype error =
    EOF
  | ErrUnexpectedEOF
  | StringTooLarge u64 u64
  | BadScalarTag u32
  | FailedHeader error
  | BadMagic string
  | UnsupportedVersion u32 u32
  | KeyErr string error
  | Panic string

fun is_panic :: "error \<Rightarrow> bool" where
  "is_panic (Panic m) = True"
| "is_panic e = False"

datatype val =
    VUint8 byte
  | VInt8 byte
  | VUint16 u16
  | VInt16 u16
  | VUint32 u32
  | VInt32 u32
  | VFloat32 u32
  | VBool bool
  | VString string
  | VUint64 u64
  | VInt64 u64
  | VFloat64 u64
  | VSlice "val list"
  | VPlaceholder string u64 string

text \<open>
  \<open>VPlaceholder kind count element_type\<close> is the map literal
  \<^verbatim>\<open>{"_placeholder": kind, "count": count, "element_type": element_type}\<close>.
\<close>

record scanner =
  r_bytes :: "byte list"
  order :: "ByteOrder option"
  pos :: u64

record policy =
  maxArray :: u64
  maxString :: u64
  debug :: bool
  expandArrays :: "string \<rightharpoonup> bool"
  expandPrefixes :: "string list"

record parser =
  scn :: scanner
  fileSize :: u64
  endianHint :: string
  kvRemain :: u64
  version :: u32
  tc :: u64
  kv :: u64
  pol :: policy

record headerEvent =
  Kind :: string
  Version :: u32
  TensorCount :: u64
  KVCount :: u64

record kvEvent =
  Key :: string
  Type :: string
  Value :: "val option"

definition kvEvent_zero :: kvEvent where
  "kvEvent_zero = \<lparr>Key = '''', Type = '''', Value = None\<rparr>"

definition magicGGUF :: string where
  "magicGGUF = ''GGUF''"

definition tUint8 :: u32 where "tUint8 = 0"

definition tInt8 :: u32 where "tInt8 = 1"

definition tUint16 :: u32 where "tUint16 = 2"

definition tInt16 :: u32 where "tInt16 = 3"

definition tUint32 :: u32 where "tUint32 = 4"

definition tInt32 :: u32 where "tInt32 = 5"

definition tFloat32 :: u32 where "tFloat32 = 6"

definition tBool :: u32 where "tBool = 7"

definition tString :: u32 where "tString = 8"

definition tArray :: u32 where "tArray = 9"

definition tUint64 :: u32 where "tUint64 = 10"

definition tInt64 :: u32 where "tInt64 = 11"

definition tFloat64 :: u32 where "tFloat64 = 12"

definition typeNames :: "string list" where
  "typeNames = [''uint8'', ''int8'', ''uint16'', ''int16'', ''uint32'', ''int32'',
     ''float32'', ''bool'', ''string'', ''array'', ''uint64'', ''int64'', ''float64'']"

section \<open>Standard-library functions the source calls\<close>

text \<open>
  \<^verbatim>\<open>encoding/binary\<close>: the two byte orders on slices of the exact width (every caller
  passes one), \<^verbatim>\<open>string(buf)\<close>, the slice expression \<^verbatim>\<open>b[i:j]\<close> within range, and
  \<^verbatim>\<open>strings.HasPrefix\<close>.
\<close>

definition string_of_bytes :: "byte list \<Rightarrow> string" where
  "string_of_bytes bs = map (\<lambda>b. char_of (unat b)) bs"

definition slice :: "'a list \<Rightarrow> nat \<Rightarrow> nat \<Rightarrow> 'a list" where
  "slice b i j = take (j - i) (drop i b)"

definition le_uint16 :: "byte list \<Rightarrow> u16" where
  "le_uint16 b = ucast (b ! 0) OR push_bit 8 (ucast (b ! 1))"

definition be_uint16 :: "byte list \<Rightarrow> u16" where
  "be_uint16 b = ucast (b ! 1) OR push_bit 8 (ucast (b ! 0))"

definition le_uint32 :: "byte list \<Rightarrow> u32" where
  "le_uint32 b = ucast (b ! 0) OR push_bit 8 (ucast (b ! 1))
     OR push_bit 16 (ucast (b ! 2)) OR push_bit 24 (ucast (b ! 3))"

definition be_uint32 :: "byte list \<Rightarrow> u32" where
  "be_uint32 b = ucast (b ! 3) OR push_bit 8 (ucast (b ! 2))
     OR push_bit 16 (ucast (b ! 1)) OR push_bit 24 (ucast (b ! 0))"

definition le_uint64 :: "byte list \<Rightarrow> u64" where
  "le_uint64 b = ucast (b ! 0) OR push_bit 8 (ucast (b ! 1))
     OR push_bit 16 (ucast (b ! 2)) OR push_bit 24 (ucast (b ! 3))
     OR push_bit 32 (ucast (b ! 4)) OR push_bit 40 (ucast (b ! 5))
     OR push_bit 48 (ucast (b ! 6)) OR push_bit 56 (ucast (b ! 7))"

definition be_uint64 :: "byte list \<Rightarrow> u64" where
  "be_uint64 b = ucast (b ! 7) OR push_bit 8 (ucast (b ! 6))
     OR push_bit 16 (ucast (b ! 5)) OR push_bit 24 (ucast (b ! 4))
     OR push_bit 32 (ucast (b ! 3)) OR push_bit 40 (ucast (b ! 2))
     OR push_bit 48 (ucast (b ! 1)) OR push_bit 56 (ucast (b ! 0))"

definition Uint16 :: "ByteOrder \<Rightarrow> byte list \<Rightarrow> u16" where
  "Uint16 bo b = (case bo of LittleEndian \<Rightarrow> le_uint16 b | BigEndian \<Rightarrow> be_uint16 b)"

definition Uint32 :: "ByteOrder \<Rightarrow> byte list \<Rightarrow> u32" where
  "Uint32 bo b = (case bo of LittleEndian \<Rightarrow> le_uint32 b | BigEndian \<Rightarrow> be_uint32 b)"

definition Uint64 :: "ByteOrder \<Rightarrow> byte list \<Rightarrow> u64" where
  "Uint64 bo b = (case bo of LittleEndian \<Rightarrow> le_uint64 b | BigEndian \<Rightarrow> be_uint64 b)"

definition HasPrefix :: "string \<Rightarrow> string \<Rightarrow> bool" where
  "HasPrefix s pre = (length pre \<le> length s \<and> take (length pre) s = pre)"

section \<open>The scanner (scanner.go)\<close>

definition newScanner :: "byte list \<Rightarrow> scanner" where
  "newScanner bs = \<lparr>r_bytes = bs, order = None, pos = 0\<rparr>"

text \<open>
  \<^verbatim>\<open>make\<close> (the run-time function \<^verbatim>\<open>makeslice\<close>) panics when the length is negative
  or when the slice would take more than \<open>maxAlloc\<close> bytes, \<open>2 ^ 48\<close> on the 64-bit
  platforms; nothing has been read then.
\<close>

definition maxAlloc :: int where
  "maxAlloc = 2 ^ 48"

text \<open>
  \<open>readExact s n\<close>: \<^verbatim>\<open>make([]byte, n)\<close> panics for an \<open>n\<close> out of range;
  \<^verbatim>\<open>io.ReadFull\<close> delivers \<open>n\<close> bytes, or consumes what is left and fails with \<open>EOF\<close>
  (nothing was left) or \<open>ErrUnexpectedEOF\<close>.  The position moves only on success.
  Every function returns the scanner it leaves behind, also beside an error, since the
  source mutates it in place.
\<close>

definition readExact :: "scanner \<Rightarrow> int \<Rightarrow> (error + byte list) \<times> scanner" where
  "readExact s n =
     (if n < 0 \<or> maxAlloc < n then (Inl (Panic ''makeslice: len out of range''), s)
      else if nat n \<le> length (r_bytes s) then
        (Inr (take (nat n) (r_bytes s)),
         s\<lparr>r_bytes := drop (nat n) (r_bytes s), pos := pos s + word_of_int n\<rparr>)
      else (Inl (if r_bytes s = [] then EOF else ErrUnexpectedEOF), s\<lparr>r_bytes := []\<rparr>))"

definition b :: "scanner \<Rightarrow> int \<Rightarrow> (error + byte list) \<times> scanner" where
  "b s n = readExact s n"

definition U8 :: "scanner \<Rightarrow> (error + byte) \<times> scanner" where
  "U8 s = (case readExact s 1 of
       (Inl e, s') \<Rightarrow> (Inl e, s')
     | (Inr bs, s') \<Rightarrow> (Inr (bs ! 0), s'))"

definition I8 :: "scanner \<Rightarrow> (error + byte) \<times> scanner" where
  "I8 s = (case readExact s 1 of
       (Inl e, s') \<Rightarrow> (Inl e, s')
     | (Inr bs, s') \<Rightarrow> (Inr (bs ! 0), s'))"

text \<open>
  The multi-byte readers call a method of \<^verbatim>\<open>s.order\<close> after the read; on a scanner
  whose order was never set that is a nil dereference.
\<close>

definition U16 :: "scanner \<Rightarrow> (error + u16) \<times> scanner" where
  "U16 s = (case readExact s 2 of
       (Inl e, s') \<Rightarrow> (Inl e, s')
     | (Inr bs, s') \<Rightarrow>
         (case order s' of
            None \<Rightarrow> (Inl (Panic ''nil pointer dereference''), s')
          | Some bo \<Rightarrow> (Inr (Uint16 bo bs), s')))"

definition I16 :: "scanner \<Rightarrow> (error + u16) \<times> scanner" where
  "I16 s = (case readExact s 2 of
       (Inl e, s') \<Rightarrow> (Inl e, s')
     | (Inr bs, s') \<Rightarrow>
         (case order s' of
            None \<Rightarrow> (Inl (Panic ''nil pointer dereference''), s')
          | Some bo \<Rightarrow> (Inr (Uint16 bo bs), s')))"

definition U32 :: "scanner \<Rightarrow> (error + u32) \<times> scanner" where
  "U32 s = (case readExact s 4 of
       (Inl e, s') \<Rightarrow> (Inl e, s')
     | (Inr bs, s') \<Rightarrow>
         (case order s' of
            None \<Rightarrow> (Inl (Panic ''nil pointer dereference''), s')
          | Some bo \<Rightarrow> (Inr (Uint32 bo bs), s')))"

definition I32 :: "scanner \<Rightarrow> (error + u32) \<times> scanner" where
  "I32 s = (case readExact s 4 of
       (Inl e, s') \<Rightarrow> (Inl e, s')
     | (Inr bs, s') \<Rightarrow>
         (case order s' of
            None \<Rightarrow> (Inl (Panic ''nil pointer dereference''), s')
          | Some bo \<Rightarrow> (Inr (Uint32 bo bs), s')))"

definition U64 :: "scanner \<Rightarrow> (error + u64) \<times> scanner" where
  "U64 s = (case readExact s 8 of
       (Inl e, s') \<Rightarrow> (Inl e, s')
     | (Inr bs, s') \<Rightarrow>
         (case order s' of
            None \<Rightarrow> (Inl (Panic ''nil pointer dereference''), s')
          | Some bo \<Rightarrow> (Inr (Uint64 bo bs), s')))"

definition I64 :: "scanner \<Rightarrow> (error + u64) \<times> scanner" where
  "I64 s = (case readExact s 8 of
       (Inl e, s') \<Rightarrow> (Inl e, s')
     | (Inr bs, s') \<Rightarrow>
         (case order s' of
            None \<Rightarrow> (Inl (Panic ''nil pointer dereference''), s')
          | Some bo \<Rightarrow> (Inr (Uint64 bo bs), s')))"

definition F32 :: "scanner \<Rightarrow> (error + u32) \<times> scanner" where
  "F32 s = U32 s"

definition F64 :: "scanner \<Rightarrow> (error + u64) \<times> scanner" where
  "F64 s = U64 s"

text \<open>\<^verbatim>\<open>int(n)\<close> of a \<^verbatim>\<open>uint64\<close> is its two's-complement reading, \<open>sint\<close>.\<close>

definition GGUFString :: "scanner \<Rightarrow> u64 \<Rightarrow> (error + string) \<times> scanner" where
  "GGUFString s mx =
     (case U64 s of
        (Inl e, s1) \<Rightarrow> (Inl e, s1)
      | (Inr n, s1) \<Rightarrow>
          if n > mx then (Inl (StringTooLarge n mx), s1)
          else (case b s1 (sint n) of
                  (Inl e, s2) \<Rightarrow> (Inl e, s2)
                | (Inr buf, s2) \<Rightarrow> (Inr (string_of_bytes buf), s2)))"

definition Align :: "scanner \<Rightarrow> u64 \<Rightarrow> (error + unit) \<times> scanner" where
  "Align s n =
     (if n = 0 then (Inr (), s)
      else let rem = pos s mod n in
        if rem \<noteq> 0 then
          (case b s (sint (n - rem)) of
             (Inl e, s') \<Rightarrow> (Inl e, s')
           | (Inr _, s') \<Rightarrow> (Inr (), s'))
        else (Inr (), s))"

definition Align8 :: "scanner \<Rightarrow> (error + unit) \<times> scanner" where
  "Align8 s = Align s 8"

section \<open>Value parsing (two-pass strategy)\<close>

text \<open>
  The decoder table \<^verbatim>\<open>scalars\<close>, indexed by the numeric tag; \<open>None\<close> is a nil entry.
  A Go closure returns the decoded value beside the scanner's error.
\<close>

type_synonym scalarDec = "scanner \<Rightarrow> (error + val) \<times> scanner"

definition dec :: "(scanner \<Rightarrow> (error + 'a) \<times> scanner) \<Rightarrow> ('a \<Rightarrow> val) \<Rightarrow> scalarDec" where
  "dec f c s = (case f s of (Inl e, s') \<Rightarrow> (Inl e, s') | (Inr v, s') \<Rightarrow> (Inr (c v), s'))"

definition scalars :: "scalarDec option list" where
  "scalars =
     [Some (dec U8 VUint8), Some (dec I8 VInt8), Some (dec U16 VUint16),
      Some (dec I16 VInt16), Some (dec U32 VUint32), Some (dec I32 VInt32),
      Some (dec F32 VFloat32), Some (dec U8 (\<lambda>u. VBool (u \<noteq> 0))),
      None, None,
      Some (dec U64 VUint64), Some (dec I64 VInt64), Some (dec F64 VFloat64)]"

text \<open>\<^verbatim>\<open>%d\<close> of \<^verbatim>\<open>fmt.Sprintf\<close> on an unsigned number.\<close>

fun decimal :: "nat \<Rightarrow> string" where
  "decimal n = (if n < 10 then [char_of (48 + n)]
                else decimal (n div 10) @ [char_of (48 + n mod 10)])"

definition typeLabel :: "u32 \<Rightarrow> string \<Rightarrow> string" where
  "typeLabel tag shape =
     (if unat tag < length typeNames then
        (if shape = '''' then typeNames ! unat tag else typeNames ! unat tag @ shape)
      else if shape = '''' then ''unknown('' @ decimal (unat tag) @ '')''
      else ''unknown('' @ decimal (unat tag) @ '')'' @ shape)"

definition readScalar :: "parser \<Rightarrow> u32 \<Rightarrow> (error + val \<times> string) \<times> parser" where
  "readScalar p tag =
     (if tag = tString then
        (case GGUFString (scn p) (maxString (pol p)) of
           (Inl e, s') \<Rightarrow> (Inl e, p\<lparr>scn := s'\<rparr>)
         | (Inr s, s') \<Rightarrow> (Inr (VString s, ''string''), p\<lparr>scn := s'\<rparr>))
      else if length scalars \<le> unat tag then (Inl (BadScalarTag tag), p)
      else (case scalars ! unat tag of
              None \<Rightarrow> (Inl (BadScalarTag tag), p)
            | Some d \<Rightarrow>
                (case d (scn p) of
                   (Inl e, s') \<Rightarrow> (Inl e, p\<lparr>scn := s'\<rparr>)
                 | (Inr v, s') \<Rightarrow> (Inr (v, typeLabel tag ''''), p\<lparr>scn := s'\<rparr>))))"

text \<open>
  \<open>bulkSkip_loop p elementType k\<close> is the \<^verbatim>\<open>for\<close> loop of \<^verbatim>\<open>bulkSkipArrayElements\<close>
  with \<open>k\<close> iterations still to run; the counter \<open>i\<close> runs from 0 to \<open>count\<close> without
  overflow, so the loop runs \<open>unat count\<close> times unless it returns early.
\<close>

function bulkSkip_loop :: "parser \<Rightarrow> u32 \<Rightarrow> nat \<Rightarrow> (error + unit) \<times> parser" where
  "bulkSkip_loop p elementType 0 = (Inr (), p)"
| "bulkSkip_loop p elementType (Suc k) =
     (if elementType = tArray then
        (case U32 (scn p) of
           (Inl e, s1) \<Rightarrow> (Inl e, p\<lparr>scn := s1\<rparr>)
         | (Inr nestedET, s1) \<Rightarrow>
        (case U64 s1 of
           (Inl e, s2) \<Rightarrow> (Inl e, p\<lparr>scn := s2\<rparr>)
         | (Inr nestedN, s2) \<Rightarrow>
        (case bulkSkip_loop (p\<lparr>scn := s2\<rparr>) nestedET (unat nestedN) of
           (Inl e, p3) \<Rightarrow> (Inl e, p3)
         | (Inr _, p3) \<Rightarrow> bulkSkip_loop p3 elementType k)))
      else
        (case readScalar p elementType of
           (Inl e, p1) \<Rightarrow> (Inl e, p1)
         | (Inr _, p1) \<Rightarrow> bulkSkip_loop p1 elementType k))"
  by pat_completeness auto

lemma readExact_Inr:
  "readExact s n = (Inr bs, s') \<Longrightarrow>
     0 \<le> n \<and> n \<le> maxAlloc \<and> nat n \<le> length (r_bytes s) \<and> bs = take (nat n) (r_bytes s) \<and>
     s' = s\<lparr>r_bytes := drop (nat n) (r_bytes s), pos := pos s + word_of_int n\<rparr>"
  by (auto simp: readExact_def maxAlloc_def split: if_splits)

lemma readExact_len: "readExact s n = (r, s') \<Longrightarrow> length (r_bytes s') \<le> length (r_bytes s)"
  by (auto simp: readExact_def maxAlloc_def split: if_splits)

lemma U8_len: "U8 s = (r, s') \<Longrightarrow> length (r_bytes s') \<le> length (r_bytes s)"
  by (auto simp: U8_def split: prod.splits sum.splits dest: readExact_len)

lemma U16_len: "U16 s = (r, s') \<Longrightarrow> length (r_bytes s') \<le> length (r_bytes s)"
  by (auto simp: U16_def split: prod.splits sum.splits option.splits dest: readExact_len)

lemma U32_len: "U32 s = (r, s') \<Longrightarrow> length (r_bytes s') \<le> length (r_bytes s)"
  by (auto simp: U32_def split: prod.splits sum.splits option.splits dest: readExact_len)

lemma U64_len: "U64 s = (r, s') \<Longrightarrow> length (r_bytes s') \<le> length (r_bytes s)"
  by (auto simp: U64_def split: prod.splits sum.splits option.splits dest: readExact_len)

lemma U32_Inr_len: "U32 s = (Inr v, s') \<Longrightarrow> length (r_bytes s') < length (r_bytes s)"
  by (auto simp: U32_def split: prod.splits sum.splits option.splits dest!: readExact_Inr)

lemma GGUFString_len:
  "GGUFString s mx = (r, s') \<Longrightarrow> length (r_bytes s') \<le> length (r_bytes s)"
  by (fastforce simp: GGUFString_def b_def split: prod.splits sum.splits if_splits
        dest: readExact_len U64_len)

lemma dec_len:
  assumes "\<And>s r s'. f s = (r, s') \<Longrightarrow> length (r_bytes s') \<le> length (r_bytes s)"
    and "dec f c s = (r, s')"
  shows "length (r_bytes s') \<le> length (r_bytes s)"
  using assms(2) by (auto simp: dec_def split: prod.splits sum.splits dest: assms(1))

lemma I8_eq: "I8 = U8" by (rule ext) (simp add: I8_def U8_def)

lemma I16_eq: "I16 = U16" by (rule ext) (simp add: I16_def U16_def)

lemma I32_eq: "I32 = U32" by (rule ext) (simp add: I32_def U32_def)

lemma I64_eq: "I64 = U64" by (rule ext) (simp add: I64_def U64_def)

lemma F32_eq: "F32 = U32" by (rule ext) (simp add: F32_def)

lemma F64_eq: "F64 = U64" by (rule ext) (simp add: F64_def)

lemma scalars_len:
  assumes "n < length scalars" and "scalars ! n = Some d" and "d s = (r, s')"
  shows "length (r_bytes s') \<le> length (r_bytes s)"
proof -
  from assms(1,2) have "Some d \<in> set scalars" by (metis nth_mem)
  then consider c where "d = dec U8 c" | c where "d = dec U16 c"
     | c where "d = dec U32 c" | c where "d = dec U64 c"
    by (auto simp: scalars_def I8_eq I16_eq I32_eq I64_eq F32_eq F64_eq)
  then show ?thesis
    using assms(3) by cases (auto elim!: dec_len [rotated] dest: U8_len U16_len U32_len U64_len)
qed

lemma readScalar_len:
  "readScalar p tag = (r, p') \<Longrightarrow> length (r_bytes (scn p')) \<le> length (r_bytes (scn p))"
  by (auto simp: readScalar_def not_le split: prod.splits sum.splits option.splits if_splits
        dest: scalars_len GGUFString_len)

lemma bulkSkip_loop_len_dom:
  "bulkSkip_loop_dom (p, et, k) \<Longrightarrow> bulkSkip_loop p et k = (r, p') \<Longrightarrow>
   length (r_bytes (scn p')) \<le> length (r_bytes (scn p))"
proof (induction p et k arbitrary: r p' rule: bulkSkip_loop.pinduct)
  case (1 p elementType)
  then show ?case by (simp add: bulkSkip_loop.psimps)
next
  case (2 p elementType k)
  show ?case
  proof (cases "elementType = tArray")
    case True
    show ?thesis
    proof (cases "U32 (scn p)")
      case (Pair r1 s1)
      note u32 = Pair
      show ?thesis
      proof (cases r1)
        case (Inl e)
        with "2.hyps" "2.prems" True u32 show ?thesis
          by (auto simp: bulkSkip_loop.psimps dest: U32_len)
      next
        case (Inr nestedET)
        note r1 = Inr
        show ?thesis
        proof (cases "U64 s1")
          case (Pair r2 s2)
          note u64 = Pair
          have l2: "length (r_bytes s2) \<le> length (r_bytes (scn p))"
            using U32_len [OF u32] U64_len [OF u64] by simp
          show ?thesis
          proof (cases r2)
            case (Inl e)
            with "2.hyps" "2.prems" True u32 r1 u64 l2 show ?thesis
              by (auto simp: bulkSkip_loop.psimps)
          next
            case (Inr nestedN)
            note r2 = Inr
            obtain r3 p3 where inner: "bulkSkip_loop (p\<lparr>scn := s2\<rparr>) nestedET (unat nestedN) = (r3, p3)"
              by (cases "bulkSkip_loop (p\<lparr>scn := s2\<rparr>) nestedET (unat nestedN)") auto
            have l3: "length (r_bytes (scn p3)) \<le> length (r_bytes s2)"
              using "2.IH"(1) [OF True u32 [symmetric] r1 u64 [symmetric] r2 inner] by simp
            show ?thesis
            proof (cases r3)
              case (Inl e)
              with "2.hyps" "2.prems" True u32 r1 u64 r2 inner l2 l3 show ?thesis
                by (auto simp: bulkSkip_loop.psimps)
            next
              case (Inr u)
              have "bulkSkip_loop p3 elementType k = (r, p')"
                using "2.hyps" "2.prems" True u32 r1 u64 r2 inner Inr by (simp add: bulkSkip_loop.psimps)
              from "2.IH"(2) [OF True u32 [symmetric] r1 u64 [symmetric] r2 inner [symmetric] Inr this]
              show ?thesis using l2 l3 by simp
            qed
          qed
        qed
      qed
    qed
  next
    case False
    obtain r1 p1 where rs: "readScalar p elementType = (r1, p1)"
      by (cases "readScalar p elementType") auto
    show ?thesis
    proof (cases r1)
      case (Inl e)
      with "2.hyps" "2.prems" False rs show ?thesis
        by (auto simp: bulkSkip_loop.psimps dest: readScalar_len)
    next
      case (Inr v)
      have "bulkSkip_loop p1 elementType k = (r, p')"
        using "2.hyps" "2.prems" False rs Inr by (simp add: bulkSkip_loop.psimps)
      from "2.IH"(3) [OF False rs [symmetric] Inr this] readScalar_len [OF rs]
      show ?thesis by simp
    qed
  qed
qed

termination bulkSkip_loop
proof (relation "inv_image (less_than <*lex*> less_than)
         (\<lambda>(p, et, k). (length (r_bytes (scn p)), k))", goal_cases)
  case 1
  show ?case by (intro wf_inv_image wf_lex_prod wf_less_than)
next
  case (2 p elementType k x y b xa ya ba)
  then have "U32 (scn p) = (Inr b, y)" and "U64 y = (Inr ba, ya)" by simp_all
  from U32_Inr_len [OF this(1)] U64_len [OF this(2)] show ?case by simp
next
  case (3 p elementType k x y b xa ya ba xb yb bb)
  then have "U32 (scn p) = (Inr b, y)" and "U64 y = (Inr ba, ya)"
    and "bulkSkip_loop (p\<lparr>scn := ya\<rparr>) b (unat ba) = (xb, yb)"
    and "bulkSkip_loop_dom (p\<lparr>scn := ya\<rparr>, b, unat ba)" by simp_all
  from U32_Inr_len [OF this(1)] U64_len [OF this(2)]
    bulkSkip_loop_len_dom [OF this(4) this(3)] show ?case by simp
next
  case (4 p elementType k x y b)
  then have "readScalar p elementType = (x, y)" by simp
  from readScalar_len [OF this] show ?case by auto
qed

definition bulkSkipArrayElements :: "parser \<Rightarrow> u32 \<Rightarrow> u64 \<Rightarrow> (error + unit) \<times> parser" where
  "bulkSkipArrayElements p elementType count = bulkSkip_loop p elementType (unat count)"

text \<open>
  \<open>safeCapFromCount\<close> (main.go) gives the capacity the result slice is allocated
  with.  An element of \<^verbatim>\<open>[]any\<close> takes 16 bytes, so \<^verbatim>\<open>make([]any, 0, cap)\<close> panics for
  a capacity above \<open>2 ^ 44\<close>, before any element is read.
\<close>

definition maxInt :: int where
  "maxInt = 2 ^ 63 - 1"

definition safeCapFromCount :: "u64 \<Rightarrow> int" where
  "safeCapFromCount n = (if uint n > maxInt then maxInt else uint n)"

text \<open>
  The loop of \<^verbatim>\<open>readExpandedArray\<close>, with \<open>k\<close> iterations still to run and the slice
  built so far.  \<^verbatim>\<open>typeNames[nestedET]\<close> is an unguarded index: it panics for a tag
  past the table.
\<close>

fun readExpanded_loop :: "parser \<Rightarrow> u32 \<Rightarrow> nat \<Rightarrow> val list \<Rightarrow> (error + val list) \<times> parser" where
  "readExpanded_loop p elementType 0 results = (Inr results, p)"
| "readExpanded_loop p elementType (Suc k) results =
     (if elementType = tArray then
        (case U32 (scn p) of
           (Inl e, s1) \<Rightarrow> (Inl e, p\<lparr>scn := s1\<rparr>)
         | (Inr nestedET, s1) \<Rightarrow>
        (case U64 s1 of
           (Inl e, s2) \<Rightarrow> (Inl e, p\<lparr>scn := s2\<rparr>)
         | (Inr nestedN, s2) \<Rightarrow>
        (case bulkSkipArrayElements (p\<lparr>scn := s2\<rparr>) nestedET nestedN of
           (Inl e, p3) \<Rightarrow> (Inl e, p3)
         | (Inr _, p3) \<Rightarrow>
             if length typeNames \<le> unat nestedET
             then (Inl (Panic ''index out of range''), p3)
             else readExpanded_loop p3 elementType k
                    (results @ [VPlaceholder ''nested_array'' nestedN (typeNames ! unat nestedET)]))))
      else
        (case readScalar p elementType of
           (Inl e, p1) \<Rightarrow> (Inl e, p1)
         | (Inr (v, _), p1) \<Rightarrow> readExpanded_loop p1 elementType k (results @ [v])))"

definition readExpandedArray ::
  "parser \<Rightarrow> u32 \<Rightarrow> u64 \<Rightarrow> string \<Rightarrow> (error + val \<times> string) \<times> parser" where
  "readExpandedArray p elementType count elemName =
     (if maxAlloc < 16 * safeCapFromCount count
      then (Inl (Panic ''makeslice: cap out of range''), p)
      else
        (case readExpanded_loop p elementType (unat count) [] of
           (Inl e, p') \<Rightarrow> (Inl e, p')
         | (Inr results, p') \<Rightarrow> (Inr (VSlice results, ''array['' @ elemName @ '']''), p')))"

text \<open>
  The expand decision of \<^verbatim>\<open>readArray\<close>: the map lookup (a missing key reads as
  \<^verbatim>\<open>false\<close>), then the loop over the prefixes with its \<^verbatim>\<open>break\<close>.
\<close>

fun prefixLoop :: "string \<Rightarrow> string list \<Rightarrow> bool" where
  "prefixLoop key [] = False"
| "prefixLoop key (pre # rest) = (if HasPrefix key pre then True else prefixLoop key rest)"

definition shouldExpand :: "policy \<Rightarrow> string \<Rightarrow> bool" where
  "shouldExpand po key =
     (let se = (case expandArrays po key of None \<Rightarrow> False | Some v \<Rightarrow> v)
      in if \<not> se then prefixLoop key (expandPrefixes po) else se)"

text \<open>The debug line of \<^verbatim>\<open>readArray\<close> goes to stderr and changes no result.\<close>

definition readArray :: "parser \<Rightarrow> string \<Rightarrow> (error + val \<times> string \<times> bool) \<times> parser" where
  "readArray p key =
     (case U32 (scn p) of
        (Inl e, s1) \<Rightarrow> (Inl e, p\<lparr>scn := s1\<rparr>)
      | (Inr et, s1) \<Rightarrow>
     (case U64 s1 of
        (Inl e, s2) \<Rightarrow> (Inl e, p\<lparr>scn := s2\<rparr>)
      | (Inr n, s2) \<Rightarrow>
          let p2 = p\<lparr>scn := s2\<rparr>;
              elemName = (if unat et < length typeNames then typeNames ! unat et else ''unknown'')
          in if shouldExpand (pol p2) key then
               (case readExpandedArray p2 et n elemName of
                  (Inl e, p3) \<Rightarrow> (Inl e, p3)
                | (Inr (result, lbl), p3) \<Rightarrow> (Inr (result, lbl, False), p3))
             else
               (case bulkSkipArrayElements p2 et n of
                  (Inl e, p3) \<Rightarrow> (Inl e, p3)
                | (Inr _, p3) \<Rightarrow>
                    (Inr (VPlaceholder ''array'' n elemName,
                          ''array['' @ elemName @ '']'', False), p3))))"

text \<open>
  \<open>readValue\<close> reads the package-level variable \<^verbatim>\<open>alignBeforeValue\<close>; it is the first
  argument here, as it is for \<open>nextKV\<close>, which calls \<open>readValue\<close>.
\<close>

definition readValue ::
  "bool \<Rightarrow> parser \<Rightarrow> u32 \<Rightarrow> string \<Rightarrow> (error + val \<times> string \<times> bool) \<times> parser" where
  "readValue alignBeforeValue p tag key =
     (case (if alignBeforeValue then Align8 (scn p) else (Inr (), scn p)) of
        (Inl e, s1) \<Rightarrow> (Inl e, p\<lparr>scn := s1\<rparr>)
      | (Inr _, s1) \<Rightarrow>
          let p1 = p\<lparr>scn := s1\<rparr> in
          if tag = tArray then readArray p1 key
          else (case readScalar p1 tag of
                  (Inl e, p2) \<Rightarrow> (Inl e, p2)
                | (Inr (v, typ), p2) \<Rightarrow> (Inr (v, typ, False), p2)))"

section \<open>The parser (parser.go)\<close>

text \<open>
  \<open>newParser\<close> returns no parser beside an error, so its result is a plain sum.
\<close>

definition newParser :: "byte list \<Rightarrow> u64 \<Rightarrow> policy \<Rightarrow> error + parser \<times> headerEvent" where
  "newParser r fsize po =
     (let scn0 = newScanner r in
      case readExact scn0 24 of
        (Inl e, _) \<Rightarrow> Inl (FailedHeader e)
      | (Inr headerBytes, scn1) \<Rightarrow>
          if string_of_bytes (slice headerBytes 0 4) \<noteq> magicGGUF
          then Inl (BadMagic (string_of_bytes (slice headerBytes 0 4)))
          else
            let versionLE = le_uint32 (slice headerBytes 4 8);
                versionBE = be_uint32 (slice headerBytes 4 8)
            in (case (if versionLE = 3 then Some (LittleEndian, 3, ''LE'')
                      else if versionBE = 3 then Some (BigEndian, 3, ''BE'')
                      else None) of
                  None \<Rightarrow> Inl (UnsupportedVersion versionLE versionBE)
                | Some (bo, ver, endianness) \<Rightarrow>
                    let scn2 = scn1\<lparr>order := Some bo\<rparr>;
                        tcount = Uint64 bo (slice headerBytes 8 16);
                        kvcount = Uint64 bo (slice headerBytes 16 24)
                    in Inr (\<lparr>scn = scn2, fileSize = fsize, endianHint = endianness,
                              kvRemain = kvcount, version = ver, tc = tcount, kv = kvcount,
                              pol = po\<rparr>,
                            \<lparr>Kind = ''header'', Version = ver, TensorCount = tcount,
                              KVCount = kvcount\<rparr>)))"

text \<open>\<^verbatim>\<open>fmt.Errorf("key %q: %w", key, err)\<close> wraps an error; a panic passes through.\<close>

definition wrapKey :: "string \<Rightarrow> error \<Rightarrow> error" where
  "wrapKey key e = (if is_panic e then e else KeyErr key e)"

definition nextKV :: "bool \<Rightarrow> parser \<Rightarrow> (error + kvEvent \<times> bool) \<times> parser" where
  "nextKV alignBeforeValue p =
     (if kvRemain p = 0 then (Inr (kvEvent_zero, False), p)
      else
        (case GGUFString (scn p) (maxString (pol p)) of
           (Inl e, s1) \<Rightarrow> (Inl e, p\<lparr>scn := s1\<rparr>)
         | (Inr key, s1) \<Rightarrow>
        (case U32 s1 of
           (Inl e, s2) \<Rightarrow> (Inl (wrapKey key e), p\<lparr>scn := s2\<rparr>)
         | (Inr tag, s2) \<Rightarrow>
        (case readValue alignBeforeValue (p\<lparr>scn := s2\<rparr>) tag key of
           (Inl e, p3) \<Rightarrow> (Inl (wrapKey key e), p3)
         | (Inr (v, typ, omitted), p3) \<Rightarrow>
             let p4 = p3\<lparr>kvRemain := kvRemain p3 - 1\<rparr> in
             if omitted then (Inr (kvEvent_zero, True), p4)
             else (Inr (\<lparr>Key = key, Type = typ, Value = Some v\<rparr>, True), p4)))))"

section \<open>What a call leaves unchanged\<close>

lemma readExact_order: "readExact s n = (r, s') \<Longrightarrow> order s' = order s"
  by (auto simp: readExact_def maxAlloc_def split: if_splits)

lemma U8_order: "U8 s = (r, s') \<Longrightarrow> order s' = order s"
  by (auto simp: U8_def split: prod.splits sum.splits dest: readExact_order)

lemma U16_order: "U16 s = (r, s') \<Longrightarrow> order s' = order s"
  by (auto simp: U16_def split: prod.splits sum.splits option.splits dest: readExact_order)

lemma U32_order: "U32 s = (r, s') \<Longrightarrow> order s' = order s"
  by (auto simp: U32_def split: prod.splits sum.splits option.splits dest: readExact_order)

lemma U64_order: "U64 s = (r, s') \<Longrightarrow> order s' = order s"
  by (auto simp: U64_def split: prod.splits sum.splits option.splits dest: readExact_order)

lemma GGUFString_order: "GGUFString s mx = (r, s') \<Longrightarrow> order s' = order s"
  by (fastforce simp: GGUFString_def b_def split: prod.splits sum.splits if_splits
        dest: readExact_order U64_order)

lemma Align_order: "Align s n = (r, s') \<Longrightarrow> order s' = order s"
  by (auto simp: Align_def b_def Let_def split: prod.splits sum.splits if_splits
        dest: readExact_order)

lemma dec_order:
  assumes "\<And>s r s'. f s = (r, s') \<Longrightarrow> order s' = order s"
    and "dec f c s = (r, s')"
  shows "order s' = order s"
  using assms(2) by (auto simp: dec_def split: prod.splits sum.splits dest: assms(1))

lemma scalars_order:
  assumes "n < length scalars" and "scalars ! n = Some d" and "d s = (r, s')"
  shows "order s' = order s"
proof -
  from assms(1,2) have "Some d \<in> set scalars" by (metis nth_mem)
  then consider c where "d = dec U8 c" | c where "d = dec U16 c"
     | c where "d = dec U32 c" | c where "d = dec U64 c"
    by (auto simp: scalars_def I8_eq I16_eq I32_eq I64_eq F32_eq F64_eq)
  then show ?thesis
    using assms(3) by cases (auto elim!: dec_order [rotated] dest: U8_order U16_order U32_order U64_order)
qed

text \<open>\<open>frame p p'\<close>: only the scanner of the parser changed, and its byte order did not.\<close>

definition frame :: "parser \<Rightarrow> parser \<Rightarrow> bool" where
  "frame p p' = (p' = p\<lparr>scn := scn p'\<rparr> \<and> order (scn p') = order (scn p))"

lemma frame_refl [simp]: "frame p p"
  by (simp add: frame_def)

lemma frame_trans: "frame p p' \<Longrightarrow> frame p' p'' \<Longrightarrow> frame p p''"
  by (auto simp: frame_def) (metis parser.surjective parser.update_convs(1))

lemma frame_scn: "order s = order (scn p) \<Longrightarrow> frame p (p\<lparr>scn := s\<rparr>)"
  by (simp add: frame_def)

lemma frame_fields:
  "frame p p' \<Longrightarrow> kvRemain p' = kvRemain p \<and> pol p' = pol p \<and> order (scn p') = order (scn p)"
  by (auto simp: frame_def) (metis parser.select_convs(4,8) parser.surjective parser.update_convs(1))+

lemma readScalar_frame: "readScalar p t = (r, p') \<Longrightarrow> frame p p'"
  by (auto simp: readScalar_def not_le split: prod.splits sum.splits option.splits if_splits
        intro!: frame_scn dest: scalars_order GGUFString_order)

lemma bulkSkip_loop_frame: "bulkSkip_loop p et k = (r, p') \<Longrightarrow> frame p p'"
proof (induction p et k arbitrary: r p' rule: bulkSkip_loop.induct)
  case (1 p elementType)
  then show ?case by simp
next
  case (2 p elementType k)
  show ?case
  proof (cases "elementType = tArray")
    case True
    show ?thesis
    proof (cases "U32 (scn p)")
      case (Pair a s1)
      note u32 = Pair
      show ?thesis
      proof (cases a)
        case (Inl e)
        with "2.prems" True u32 show ?thesis
          by (auto intro!: frame_scn dest: U32_order)
      next
        case (Inr nestedET)
        note a = Inr
        show ?thesis
        proof (cases "U64 s1")
          case (Pair c s2)
          note u64 = Pair
          have f2: "frame p (p\<lparr>scn := s2\<rparr>)"
            using U32_order [OF u32] U64_order [OF u64] by (simp add: frame_scn)
          show ?thesis
          proof (cases c)
            case (Inl e)
            with "2.prems" True u32 a u64 f2 show ?thesis by auto
          next
            case (Inr nestedN)
            note c = Inr
            obtain d p3 where inner: "bulkSkip_loop (p\<lparr>scn := s2\<rparr>) nestedET (unat nestedN) = (d, p3)"
              by (cases "bulkSkip_loop (p\<lparr>scn := s2\<rparr>) nestedET (unat nestedN)") auto
            have f3: "frame p p3"
              using "2.IH"(1) [OF True u32 [symmetric] a u64 [symmetric] c inner] f2
              by (blast intro: frame_trans)
            show ?thesis
            proof (cases d)
              case (Inl e)
              with "2.prems" True u32 a u64 c inner f3 show ?thesis by auto
            next
              case (Inr u)
              have "bulkSkip_loop p3 elementType k = (r, p')"
                using "2.prems" True u32 a u64 c inner Inr by simp
              from "2.IH"(2) [OF True u32 [symmetric] a u64 [symmetric] c inner [symmetric] Inr this] f3
              show ?thesis by (blast intro: frame_trans)
            qed
          qed
        qed
      qed
    qed
  next
    case False
    obtain a p1 where rs: "readScalar p elementType = (a, p1)"
      by (cases "readScalar p elementType") auto
    show ?thesis
    proof (cases a)
      case (Inl e)
      with "2.prems" False rs show ?thesis by (auto dest: readScalar_frame)
    next
      case (Inr v)
      have "bulkSkip_loop p1 elementType k = (r, p')"
        using "2.prems" False rs Inr by simp
      from "2.IH"(3) [OF False rs [symmetric] Inr this] readScalar_frame [OF rs]
      show ?thesis by (blast intro: frame_trans)
    qed
  qed
qed

lemma bulkSkipArrayElements_frame: "bulkSkipArrayElements p et n = (r, p') \<Longrightarrow> frame p p'"
  by (auto simp: bulkSkipArrayElements_def dest: bulkSkip_loop_frame)

lemma readExpanded_loop_frame: "readExpanded_loop p et k rs = (r, p') \<Longrightarrow> frame p p'"
proof (induction k arbitrary: p rs)
  case 0
  then show ?case by simp
next
  case (Suc k)
  show ?case
  proof (cases "et = tArray")
    case True
    show ?thesis
    proof (cases "U32 (scn p)")
      case (Pair a s1)
      note u32 = Pair
      show ?thesis
      proof (cases a)
        case (Inl e)
        with Suc.prems True u32 show ?thesis by (auto intro!: frame_scn dest: U32_order)
      next
        case (Inr nestedET)
        note a = Inr
        show ?thesis
        proof (cases "U64 s1")
          case (Pair c s2)
          note u64 = Pair
          have f2: "frame p (p\<lparr>scn := s2\<rparr>)"
            using U32_order [OF u32] U64_order [OF u64] by (simp add: frame_scn)
          show ?thesis
          proof (cases c)
            case (Inl e)
            with Suc.prems True u32 a u64 f2 show ?thesis by auto
          next
            case (Inr nestedN)
            note c = Inr
            obtain d p3 where inner: "bulkSkipArrayElements (p\<lparr>scn := s2\<rparr>) nestedET nestedN = (d, p3)"
              by (cases "bulkSkipArrayElements (p\<lparr>scn := s2\<rparr>) nestedET nestedN") auto
            have f3: "frame p p3"
              using bulkSkipArrayElements_frame [OF inner] f2 by (blast intro: frame_trans)
            show ?thesis
            proof (cases d)
              case (Inl e)
              with Suc.prems True u32 a u64 c inner f3 show ?thesis by auto
            next
              case (Inr u)
              show ?thesis
              proof (cases "length typeNames \<le> unat nestedET")
                case True
                with Suc.prems \<open>et = tArray\<close> u32 a u64 c inner Inr f3 show ?thesis by auto
              next
                case False
                with Suc.prems \<open>et = tArray\<close> u32 a u64 c inner Inr
                have "readExpanded_loop p3 et k
                   (rs @ [VPlaceholder ''nested_array'' nestedN (typeNames ! unat nestedET)]) = (r, p')"
                  by simp
                from Suc.IH [OF this] f3 show ?thesis by (blast intro: frame_trans)
              qed
            qed
          qed
        qed
      qed
    qed
  next
    case False
    obtain a p1 where rs: "readScalar p et = (a, p1)"
      by (cases "readScalar p et") auto
    show ?thesis
    proof (cases a)
      case (Inl e)
      with Suc.prems False rs show ?thesis by (auto dest: readScalar_frame)
    next
      case (Inr vl)
      obtain v l where "vl = (v, l)" by (cases vl)
      with Suc.prems False rs Inr have "readExpanded_loop p1 et k (rs @ [v]) = (r, p')" by simp
      from Suc.IH [OF this] readScalar_frame [OF rs] show ?thesis by (blast intro: frame_trans)
    qed
  qed
qed

lemma readExpandedArray_frame: "readExpandedArray p et n nm = (r, p') \<Longrightarrow> frame p p'"
  by (auto simp: readExpandedArray_def split: prod.splits sum.splits if_splits
        dest: readExpanded_loop_frame)

lemma readArray_frame: "readArray p key = (r, p') \<Longrightarrow> frame p p'"
proof (cases "U32 (scn p)")
  case (Pair a s1)
  note u32 = Pair
  assume ra: "readArray p key = (r, p')"
  show ?thesis
  proof (cases a)
    case (Inl e)
    with ra u32 show ?thesis by (auto simp: readArray_def intro!: frame_scn dest: U32_order)
  next
    case (Inr et)
    note a = Inr
    show ?thesis
    proof (cases "U64 s1")
      case (Pair c s2)
      have f2: "frame p (p\<lparr>scn := s2\<rparr>)"
        using U32_order [OF u32] U64_order [OF Pair] by (simp add: frame_scn)
      show ?thesis
      proof (cases c)
        case (Inl e)
        with ra u32 a Pair f2 show ?thesis by (auto simp: readArray_def)
      next
        case (Inr n)
        with ra u32 a Pair f2 show ?thesis
          by (auto simp: readArray_def Let_def split: if_splits prod.splits sum.splits
                dest!: readExpandedArray_frame bulkSkipArrayElements_frame intro: frame_trans)
      qed
    qed
  qed
qed

lemma readValue_frame: "readValue al p tag key = (r, p') \<Longrightarrow> frame p p'"
proof -
  assume rv: "readValue al p tag key = (r, p')"
  obtain a s1 where al: "(if al then Align8 (scn p) else (Inr (), scn p)) = (a, s1)"
    by (cases "if al then Align8 (scn p) else (Inr (), scn p)") auto
  then have "order s1 = order (scn p)"
    by (auto simp: Align8_def split: if_splits dest: Align_order)
  then have f1: "frame p (p\<lparr>scn := s1\<rparr>)" by (simp add: frame_scn)
  show ?thesis
  proof (cases a)
    case (Inl e)
    with rv al f1 show ?thesis by (auto simp: readValue_def)
  next
    case (Inr u)
    with rv al f1 show ?thesis
      by (auto simp: readValue_def Let_def split: if_splits prod.splits sum.splits
            dest!: readArray_frame readScalar_frame intro: frame_trans)
  qed
qed

lemma nextKV_none: "kvRemain p = 0 \<Longrightarrow> nextKV al p = (Inr (kvEvent_zero, False), p)"
  by (simp add: nextKV_def)

lemma nextKV_cases:
  assumes "nextKV al p = (r, p')"
  obtains (stop) "kvRemain p = 0" "r = Inr (kvEvent_zero, False)" "p' = p"
    | (fail) e where "kvRemain p \<noteq> 0" "r = Inl e" "frame p p'"
    | (emit) ev p3 where "kvRemain p \<noteq> 0" "r = Inr (ev, True)" "frame p p3"
        "p' = p3\<lparr>kvRemain := kvRemain p3 - 1\<rparr>"
proof (cases "kvRemain p = 0")
  case True
  with assms have "r = Inr (kvEvent_zero, False)" "p' = p" by (simp_all add: nextKV_def)
  with True show ?thesis by (rule stop)
next
  case False
  note nz = False
  obtain a s1 where g: "GGUFString (scn p) (maxString (pol p)) = (a, s1)"
    by (cases "GGUFString (scn p) (maxString (pol p))") auto
  have f1: "frame p (p\<lparr>scn := s1\<rparr>)" using GGUFString_order [OF g] by (simp add: frame_scn)
  show ?thesis
  proof (cases a)
    case (Inl e)
    with assms nz g have "r = Inl e" "p' = p\<lparr>scn := s1\<rparr>" by (simp_all add: nextKV_def)
    with nz f1 show ?thesis by (auto intro: fail)
  next
    case (Inr key)
    note a = Inr
    obtain c s2 where u: "U32 s1 = (c, s2)" by (cases "U32 s1") auto
    have f2: "frame p (p\<lparr>scn := s2\<rparr>)"
      using GGUFString_order [OF g] U32_order [OF u] by (simp add: frame_scn)
    show ?thesis
    proof (cases c)
      case (Inl e)
      with assms nz g a u have "r = Inl (wrapKey key e)" "p' = p\<lparr>scn := s2\<rparr>"
        by (simp_all add: nextKV_def)
      with nz f2 show ?thesis by (auto intro: fail)
    next
      case (Inr tag)
      note c = Inr
      obtain d p3 where rv: "readValue al (p\<lparr>scn := s2\<rparr>) tag key = (d, p3)"
        by (cases "readValue al (p\<lparr>scn := s2\<rparr>) tag key") auto
      have f3: "frame p p3" using readValue_frame [OF rv] f2 by (blast intro: frame_trans)
      show ?thesis
      proof (cases d)
        case (Inl e)
        with assms nz g a u c rv have "r = Inl (wrapKey key e)" "p' = p3"
          by (simp_all add: nextKV_def)
        with nz f3 show ?thesis by (auto intro: fail)
      next
        case (Inr vto)
        obtain v ty omitted where "vto = (v, ty, omitted)" by (cases vto)
        with assms nz g a u c rv Inr
        have "\<exists>ev. r = Inr (ev, True)" "p' = p3\<lparr>kvRemain := kvRemain p3 - 1\<rparr>"
          by (auto simp: nextKV_def Let_def split: if_splits)
        with nz f3 show ?thesis by (auto intro: emit)
      qed
    qed
  qed
qed

lemma nextKV_error: "nextKV al p = (Inl e, p') \<Longrightarrow> frame p p'"
  by (erule nextKV_cases) auto

lemma nextKV_produced:
  assumes "nextKV al p = (Inr (ev, True), p')"
  shows "kvRemain p \<noteq> 0 \<and> kvRemain p' = kvRemain p - 1 \<and> unat (kvRemain p') + 1 = unat (kvRemain p)"
  using assms
proof (cases rule: nextKV_cases)
  case (emit ev' p3)
  then have "kvRemain p' = kvRemain p - 1" by (auto dest: frame_fields)
  moreover have "unat (kvRemain p - 1) + 1 = unat (kvRemain p)"
    using emit(1) by (simp add: unat_minus_one unat_gt_0)
  ultimately show ?thesis using emit(1) by simp
qed auto

lemma nextKV_no_more: "nextKV al p = (Inr (ev, False), p') \<Longrightarrow> kvRemain p = 0 \<and> p' = p"
  by (erule nextKV_cases) auto

lemma nextKV_produced_unat:
  "nextKV al p = (Inr (ev, True), p') \<Longrightarrow> unat (kvRemain p') + 1 = unat (kvRemain p)"
  by (drule nextKV_produced) blast

lemma nextKV_order: "nextKV al p = (r, p') \<Longrightarrow> order (scn p') = order (scn p)"
  by (erule nextKV_cases) (auto dest: frame_fields)

section \<open>The loop of main (main.go)\<close>

text \<open>
  The loop of \<^verbatim>\<open>main\<close> (main.go): \<^verbatim>\<open>log.Fatal\<close> on an error, \<^verbatim>\<open>break\<close> on no-more,
  \<^verbatim>\<open>continue\<close> on an empty key or a key the filter rejects, else the record is encoded.
  The filter \<^verbatim>\<open>matchKey\<close> (a prefix test against \<^verbatim>\<open>--keys\<close>) is a parameter.  The
  result is the error, if any, the records encoded so far, and the parser.
\<close>

function mainLoop ::
  "bool \<Rightarrow> (string \<Rightarrow> bool) \<Rightarrow> parser \<Rightarrow> kvEvent list \<Rightarrow> error option \<times> kvEvent list \<times> parser" where
  "mainLoop al matchKey p out =
     (case nextKV al p of
        (Inl e, p') \<Rightarrow> (Some e, out, p')
      | (Inr (kvev, ok), p') \<Rightarrow>
          if \<not> ok then (None, out, p')
          else if Key kvev = '''' then mainLoop al matchKey p' out
          else if \<not> matchKey (Key kvev) then mainLoop al matchKey p' out
          else mainLoop al matchKey p' (out @ [kvev]))"
  by pat_completeness auto
termination
proof (relation "measure (\<lambda>(al, matchKey, p, out). unat (kvRemain p))", goal_cases)
  case 1
  show ?case by simp
next
  case (2 al matchKey p out x p' r kvev ok)
  then have "nextKV al p = (Inr (kvev, True), p')" by simp
  from nextKV_produced [OF this] show ?case by auto
next
  case (3 al matchKey p out x p' r kvev ok)
  then have "nextKV al p = (Inr (kvev, True), p')" by simp
  from nextKV_produced [OF this] show ?case by auto
next
  case (4 al matchKey p out x p' r kvev ok)
  then have "nextKV al p = (Inr (kvev, True), p')" by simp
  from nextKV_produced [OF this] show ?case by auto
qed

declare mainLoop.simps [simp del]

section \<open>Vocabulary of the claims\<close>

text \<open>
  The ten typed readers by name, with the width each declares, and the operations a
  caller can run on a scanner.  \<open>outcome\<close> keeps whether a call succeeded and the
  scanner it left; \<open>trace\<close> lists the scanner before and after each operation of a
  sequence.  \<open>in_range\<close> says the bytes still to come do not carry the 64-bit position
  past its last value; it holds of \<open>newScanner\<close> on any source shorter than
  \<open>2 ^ 64\<close> bytes, and of the scanner of the parser \<open>newParser\<close> returns on it.
\<close>

datatype prim = PU8 | PI8 | PU16 | PI16 | PU32 | PI32 | PU64 | PI64 | PF32 | PF64

fun width :: "prim \<Rightarrow> nat" where
  "width PU8 = 1" | "width PI8 = 1"
| "width PU16 = 2" | "width PI16 = 2"
| "width PU32 = 4" | "width PI32 = 4" | "width PF32 = 4"
| "width PU64 = 8" | "width PI64 = 8" | "width PF64 = 8"

definition outcome :: "(error + 'a) \<times> scanner \<Rightarrow> bool \<times> scanner" where
  "outcome x = (\<not> isl (fst x), snd x)"

fun read_prim :: "prim \<Rightarrow> scanner \<Rightarrow> bool \<times> scanner" where
  "read_prim PU8 s = outcome (U8 s)"
| "read_prim PI8 s = outcome (I8 s)"
| "read_prim PU16 s = outcome (U16 s)"
| "read_prim PI16 s = outcome (I16 s)"
| "read_prim PU32 s = outcome (U32 s)"
| "read_prim PI32 s = outcome (I32 s)"
| "read_prim PU64 s = outcome (U64 s)"
| "read_prim PI64 s = outcome (I64 s)"
| "read_prim PF32 s = outcome (F32 s)"
| "read_prim PF64 s = outcome (F64 s)"

datatype scanner_op = OpReadExact int | OpPrim prim | OpString u64 | OpAlign u64

fun exec :: "scanner_op \<Rightarrow> scanner \<Rightarrow> scanner" where
  "exec (OpReadExact n) s = snd (readExact s n)"
| "exec (OpPrim q) s = snd (read_prim q s)"
| "exec (OpString mx) s = snd (GGUFString s mx)"
| "exec (OpAlign n) s = snd (Align s n)"

fun trace :: "scanner_op list \<Rightarrow> scanner \<Rightarrow> scanner list" where
  "trace [] s = [s]"
| "trace (x # xs) s = s # trace xs (exec x s)"

definition in_range :: "scanner \<Rightarrow> bool" where
  "in_range s = (unat (pos s) + length (r_bytes s) < 2 ^ 64)"

text \<open>
  \<open>forward s s'\<close>: the scanner \<open>s'\<close> is at or behind the position of \<open>s\<close>, and still
  in range.
\<close>

definition forward :: "scanner \<Rightarrow> scanner \<Rightarrow> bool" where
  "forward s s' = (in_range s' \<and> unat (pos s) \<le> unat (pos s'))"

text \<open>
  \<open>unknown_tag t\<close>: the numeric tag \<open>t\<close> is outside the 13 known kinds, that is,
  past the end of \<^verbatim>\<open>typeNames\<close>.  \<open>elemNameOf\<close> is the element name \<open>readArray\<close>
  computes.  \<open>setMaxArray\<close> changes the size threshold of the policy and nothing else.
\<close>

definition unknown_tag :: "u32 \<Rightarrow> bool" where
  "unknown_tag t = (length typeNames \<le> unat t)"

text \<open>
  \<open>capInRange n\<close>: the allocation \<^verbatim>\<open>make([]any, 0, safeCapFromCount(n))\<close> of
  \<^verbatim>\<open>readExpandedArray\<close> does not panic.

  \<open>reaches_unknown x p et k u q\<close>: a loop over \<open>k\<close> elements of type \<open>et\<close> that starts
  in state \<open>p\<close> comes, every element before having been passed without error, to an
  element header whose tag \<open>u\<close> is outside the known kinds and whose count is at least
  1, in state \<open>q\<close>.  The header is the one the loop runs under (\<open>here\<close>), or it is met
  while the payload of a nested array is skipped (\<open>inside\<close>), or at a later element
  (\<open>after\<close>).  With \<open>x\<close> set the loop is the one of \<^verbatim>\<open>readExpandedArray\<close>, which
  indexes \<^verbatim>\<open>typeNames\<close> with the tag of every nested header it has passed.
\<close>

definition capInRange :: "u64 \<Rightarrow> bool" where
  "capInRange n = (16 * safeCapFromCount n \<le> maxAlloc)"

inductive reaches_unknown :: "bool \<Rightarrow> parser \<Rightarrow> u32 \<Rightarrow> nat \<Rightarrow> u32 \<Rightarrow> parser \<Rightarrow> bool" where
  here: "unknown_tag et \<Longrightarrow> reaches_unknown x p et (Suc k) et p"
| inside: "U32 (scn p) = (Inr t, s1) \<Longrightarrow> U64 s1 = (Inr c, s2) \<Longrightarrow>
     reaches_unknown False (p\<lparr>scn := s2\<rparr>) t (unat c) u q \<Longrightarrow>
     reaches_unknown x p tArray (Suc k) u q"
| after: "U32 (scn p) = (Inr t, s1) \<Longrightarrow> U64 s1 = (Inr c, s2) \<Longrightarrow>
     bulkSkipArrayElements (p\<lparr>scn := s2\<rparr>) t c = (Inr (), p3) \<Longrightarrow>
     (x \<longrightarrow> unat t < length typeNames) \<Longrightarrow>
     reaches_unknown x p3 tArray k u q \<Longrightarrow>
     reaches_unknown x p tArray (Suc k) u q"

definition elemNameOf :: "u32 \<Rightarrow> string" where
  "elemNameOf et = (if unat et < length typeNames then typeNames ! unat et else ''unknown'')"

definition setMaxArray :: "u64 \<Rightarrow> parser \<Rightarrow> parser" where
  "setMaxArray m p = p\<lparr>pol := (pol p)\<lparr>maxArray := m\<rparr>\<rparr>"



definition discard :: "error + 'a \<Rightarrow> error + unit" where
  "discard r = (case r of Inl e \<Rightarrow> Inl e | Inr _ \<Rightarrow> Inr ())"

text \<open>
  \<open>nested_headers p k\<close> lists the nested headers (element tag and count) that the
  next \<open>k\<close> elements of an array of arrays carry, each found behind the payload of
  the one before; \<open>nested_placeholder\<close> is the placeholder map built from one.
\<close>

fun nested_headers :: "parser \<Rightarrow> nat \<Rightarrow> (u32 \<times> u64) list" where
  "nested_headers p 0 = []"
| "nested_headers p (Suc k) =
     (case U32 (scn p) of
        (Inl e, s1) \<Rightarrow> []
      | (Inr t, s1) \<Rightarrow>
     (case U64 s1 of
        (Inl e, s2) \<Rightarrow> []
      | (Inr c, s2) \<Rightarrow>
     (case bulkSkipArrayElements (p\<lparr>scn := s2\<rparr>) t c of
        (Inl e, p3) \<Rightarrow> []
      | (Inr _, p3) \<Rightarrow> (t, c) # nested_headers p3 k)))"

definition nested_placeholder :: "u32 \<times> u64 \<Rightarrow> val" where
  "nested_placeholder h = VPlaceholder ''nested_array'' (snd h) (typeNames ! unat (fst h))"

text \<open>
  A caller may call \<open>nextKV\<close> any number of times: \<open>run_calls al p k\<close> lists the
  results of \<open>k\<close> calls in a row, and \<open>produced\<close> says a result is a record.
\<close>

fun run_calls :: "bool \<Rightarrow> parser \<Rightarrow> nat \<Rightarrow> (error + kvEvent \<times> bool) list" where
  "run_calls al p 0 = []"
| "run_calls al p (Suc k) = (case nextKV al p of (r, p') \<Rightarrow> r # run_calls al p' k)"

definition produced :: "error + kvEvent \<times> bool \<Rightarrow> bool" where
  "produced r = (case r of Inl e \<Rightarrow> False | Inr (ev, ok) \<Rightarrow> ok)"

section \<open>Example inputs\<close>

text \<open>
  The policy \<^verbatim>\<open>main\<close> builds from the default flags, the same with one expanded key,
  a parser as \<open>newParser\<close> leaves it behind a little-endian header, and byte strings:
  an array header for two \<^verbatim>\<open>uint8\<close> elements 5 and 6 followed by a further byte; two
  nested headers, the first with tag 99 and count 0; an array of two arrays, the first
  an array holding one array of two bytes; headers with tag 99 and count 0 or 1; the
  scenario of the specification; and a big-endian prologue.
\<close>

definition defaultPolicy :: policy where
  "defaultPolicy = \<lparr>maxArray = 32, maxString = 131072, debug = False,
     expandArrays = Map.empty, expandPrefixes = []\<rparr>"

definition expandPolicy :: "string \<Rightarrow> policy" where
  "expandPolicy key = defaultPolicy\<lparr>expandArrays := [key \<mapsto> True]\<rparr>"

definition parserAt :: "byte list \<Rightarrow> policy \<Rightarrow> parser" where
  "parserAt bs po = \<lparr>scn = \<lparr>r_bytes = bs, order = Some LittleEndian, pos = 24\<rparr>,
     fileSize = 0, endianHint = ''LE'', kvRemain = 1, version = 3, tc = 0, kv = 1, pol = po\<rparr>"

definition bytes_u8x2 :: "byte list" where
  "bytes_u8x2 = [0, 0, 0, 0,  2, 0, 0, 0, 0, 0, 0, 0,  5, 6, 9]"

definition bytes_bad_nested :: "byte list" where
  "bytes_bad_nested = [99, 0, 0, 0,  0, 0, 0, 0, 0, 0, 0, 0,
                       0, 0, 0, 0,  0, 0, 0, 0, 0, 0, 0, 0]"

definition bytes_nested2 :: "byte list" where
  "bytes_nested2 = [9, 0, 0, 0,  1, 0, 0, 0, 0, 0, 0, 0,
                      0, 0, 0, 0,  2, 0, 0, 0, 0, 0, 0, 0,  5, 6,
                    4, 0, 0, 0,  0, 0, 0, 0, 0, 0, 0, 0]"

definition bytes_unknown_empty :: "byte list" where
  "bytes_unknown_empty = [99, 0, 0, 0,  0, 0, 0, 0, 0, 0, 0, 0]"

definition bytes_unknown_one :: "byte list" where
  "bytes_unknown_one = [99, 0, 0, 0,  1, 0, 0, 0, 0, 0, 0, 0,  7]"

definition bytes_unknown_second :: "byte list" where
  "bytes_unknown_second = [9, 0, 0, 0,  2, 0, 0, 0, 0, 0, 0, 0,
                             0, 0, 0, 0,  1, 0, 0, 0, 0, 0, 0, 0,  5,
                             99, 0, 0, 0,  1, 0, 0, 0, 0, 0, 0, 0,  7]"

definition scenario_kv :: "byte list" where
  "scenario_kv = [1, 0, 0, 0, 0, 0, 0, 0,  97,  4, 0, 0, 0,  42, 0, 0, 0]"

definition scenario :: "byte list" where
  "scenario = [71, 71, 85, 70,  3, 0, 0, 0,  1, 0, 0, 0, 0, 0, 0, 0,  1, 0, 0, 0, 0, 0, 0, 0]
              @ scenario_kv"

definition prologue_be :: "byte list" where
  "prologue_be = [71, 71, 85, 70,  0, 0, 0, 3,  0, 0, 0, 0, 0, 0, 0, 1,  0, 0, 0, 0, 0, 0, 0, 2]"

section \<open>Properties of the scanner\<close>

lemma readExact_step:
  assumes "in_range s" and "readExact s n = (r, s')"
  shows "in_range s' \<and> unat (pos s) \<le> unat (pos s')"
proof (cases "0 \<le> n \<and> n \<le> maxAlloc \<and> nat n \<le> length (r_bytes s)")
  case True
  then have s': "s' = s\<lparr>r_bytes := drop (nat n) (r_bytes s), pos := pos s + word_of_int n\<rparr>"
    using assms(2) by (auto simp: readExact_def)
  have "unat (pos s) + nat n < 2 ^ 64" using assms(1) True by (simp add: in_range_def)
  moreover have "word_of_int n = (word_of_nat (nat n) :: u64)" using True by simp
  ultimately have "unat (pos s + word_of_int n) = unat (pos s) + nat n"
    by (simp add: unat_word_ariths unat_of_nat take_bit_nat_eq_self)
  then show ?thesis using assms(1) True by (simp add: s' in_range_def)
next
  case False
  then show ?thesis using assms by (auto simp: readExact_def maxAlloc_def in_range_def split: if_splits)
qed

lemma readExact_ok_pos:
  assumes "in_range s" and "readExact s n = (Inr bs, s')"
  shows "unat (pos s') = unat (pos s) + nat n \<and> r_bytes s' = drop (nat n) (r_bytes s)"
proof -
  from readExact_Inr [OF assms(2)] have n: "0 \<le> n" "nat n \<le> length (r_bytes s)"
    and s': "s' = s\<lparr>r_bytes := drop (nat n) (r_bytes s), pos := pos s + word_of_int n\<rparr>"
    by simp_all
  have "unat (pos s) + nat n < 2 ^ 64" using assms(1) n by (simp add: in_range_def)
  moreover have "word_of_int n = (word_of_nat (nat n) :: u64)" using n by simp
  ultimately have "unat (pos s + word_of_int n) = unat (pos s) + nat n"
    by (simp add: unat_word_ariths unat_of_nat take_bit_nat_eq_self)
  then show ?thesis by (simp add: s')
qed

lemma snd_U8: "snd (U8 s) = snd (readExact s 1)"
  by (simp add: U8_def split: prod.splits sum.splits)

lemma snd_U16: "snd (U16 s) = snd (readExact s 2)"
  by (simp add: U16_def split: prod.splits sum.splits option.splits)

lemma snd_U32: "snd (U32 s) = snd (readExact s 4)"
  by (simp add: U32_def split: prod.splits sum.splits option.splits)

lemma snd_U64: "snd (U64 s) = snd (readExact s 8)"
  by (simp add: U64_def split: prod.splits sum.splits option.splits)

lemma ok_U8: "\<not> isl (fst (U8 s)) \<Longrightarrow> \<exists>bs. readExact s 1 = (Inr bs, snd (U8 s))"
  by (auto simp: U8_def split: prod.splits sum.splits)

lemma ok_U16: "\<not> isl (fst (U16 s)) \<Longrightarrow> \<exists>bs. readExact s 2 = (Inr bs, snd (U16 s))"
  by (auto simp: U16_def split: prod.splits sum.splits option.splits)

lemma ok_U32: "\<not> isl (fst (U32 s)) \<Longrightarrow> \<exists>bs. readExact s 4 = (Inr bs, snd (U32 s))"
  by (auto simp: U32_def split: prod.splits sum.splits option.splits)

lemma ok_U64: "\<not> isl (fst (U64 s)) \<Longrightarrow> \<exists>bs. readExact s 8 = (Inr bs, snd (U64 s))"
  by (auto simp: U64_def split: prod.splits sum.splits option.splits)

lemma read_prim_readExact: "snd (read_prim q s) = snd (readExact s (int (width q)))"
  by (cases q) (simp_all add: outcome_def snd_U8 snd_U16 snd_U32 snd_U64
        I8_eq I16_eq I32_eq I64_eq F32_eq F64_eq)

lemma read_prim_ok:
  "read_prim q s = (True, s') \<Longrightarrow> \<exists>bs. readExact s (int (width q)) = (Inr bs, s')"
  by (cases q) (auto simp: outcome_def I8_eq I16_eq I32_eq I64_eq F32_eq F64_eq
        dest: ok_U8 ok_U16 ok_U32 ok_U64)

lemma read_prim_word:
  "read_prim q s = (True, s') \<Longrightarrow> pos s' = pos s + word_of_nat (width q)"
  by (auto dest!: read_prim_ok readExact_Inr)

lemma read_prim_exact:
  "in_range s \<Longrightarrow> read_prim q s = (True, s') \<Longrightarrow>
   unat (pos s') = unat (pos s) + width q \<and> r_bytes s' = drop (width q) (r_bytes s)"
  using readExact_ok_pos [of s "int (width q)" _ s'] by (auto dest!: read_prim_ok)

lemma GGUFString_step:
  assumes "in_range s"
  shows "in_range (snd (GGUFString s mx)) \<and> unat (pos s) \<le> unat (pos (snd (GGUFString s mx)))"
proof -
  obtain r1 s1 where u: "readExact s 8 = (r1, s1)" by (cases "readExact s 8") auto
  from readExact_step [OF assms u] have 1: "in_range s1" "unat (pos s) \<le> unat (pos s1)" by simp_all
  have s1: "snd (U64 s) = s1" using u by (simp add: snd_U64)
  show ?thesis
  proof (cases "U64 s")
    case (Pair a s1')
    with s1 have [simp]: "s1' = s1" by simp
    show ?thesis
    proof (cases a)
      case (Inl e)
      with Pair 1 show ?thesis by (simp add: GGUFString_def)
    next
      case (Inr n)
      obtain r2 s2 where v: "readExact s1 (sint n) = (r2, s2)" by (cases "readExact s1 (sint n)") auto
      from readExact_step [OF 1(1) v] have "in_range s2" "unat (pos s1) \<le> unat (pos s2)" by simp_all
      with Pair Inr 1 v show ?thesis
        by (auto simp: GGUFString_def b_def split: sum.splits)
    qed
  qed
qed

lemma Align_step:
  assumes "in_range s"
  shows "in_range (snd (Align s n)) \<and> unat (pos s) \<le> unat (pos (snd (Align s n)))"
proof -
  obtain r1 s1 where u: "readExact s (sint (n - pos s mod n)) = (r1, s1)"
    by (cases "readExact s (sint (n - pos s mod n))") auto
  from readExact_step [OF assms u] show ?thesis
    using assms u by (auto simp: Align_def Let_def b_def split: sum.splits)
qed

lemma exec_step:
  "in_range s \<Longrightarrow> in_range (exec x s) \<and> unat (pos s) \<le> unat (pos (exec x s))"
proof (cases x)
  case (OpReadExact n)
  assume "in_range s"
  from readExact_step [OF this, of n "fst (readExact s n)" "snd (readExact s n)"]
  show ?thesis by (simp add: OpReadExact)
next
  case (OpPrim q)
  assume "in_range s"
  from readExact_step [OF this, of "int (width q)" "fst (readExact s (int (width q)))" "snd (readExact s (int (width q)))"]
  show ?thesis by (simp add: OpPrim read_prim_readExact)
next
  case (OpString mx)
  assume "in_range s"
  then show ?thesis by (simp add: OpString GGUFString_step)
next
  case (OpAlign n)
  assume "in_range s"
  then show ?thesis by (simp add: OpAlign Align_step)
qed

lemma trace_bounds:
  "in_range s \<Longrightarrow> \<forall>s' \<in> set (trace xs s). in_range s' \<and> unat (pos s) \<le> unat (pos s')"
proof (induction xs arbitrary: s)
  case Nil
  then show ?case by simp
next
  case (Cons x xs)
  from exec_step [OF Cons.prems, of x] have 1: "in_range (exec x s)" "unat (pos s) \<le> unat (pos (exec x s))"
    by simp_all
  from Cons.IH [OF 1(1)] 1(2) Cons.prems show ?case by fastforce
qed

lemma trace_sorted: "in_range s \<Longrightarrow> sorted (map (\<lambda>s. unat (pos s)) (trace xs s))"
proof (induction xs arbitrary: s)
  case Nil
  then show ?case by simp
next
  case (Cons x xs)
  from exec_step [OF Cons.prems, of x] have 1: "in_range (exec x s)" "unat (pos s) \<le> unat (pos (exec x s))"
    by simp_all
  from trace_bounds [OF 1(1), of xs] 1(2) have "\<forall>s' \<in> set (trace xs (exec x s)). unat (pos s) \<le> unat (pos s')"
    by fastforce
  with Cons.IH [OF 1(1)] show ?case by simp
qed

lemma newScanner_in_range: "length bs < 2 ^ 64 \<Longrightarrow> in_range (newScanner bs)"
  by (simp add: in_range_def newScanner_def)

lemma in_range_order: "in_range (s\<lparr>order := bo\<rparr>) = in_range s"
  by (simp add: in_range_def)

lemma forward_refl: "in_range s \<Longrightarrow> forward s s"
  by (simp add: forward_def)

lemma forward_trans: "forward s s' \<Longrightarrow> forward s' s'' \<Longrightarrow> forward s s''"
  by (auto simp: forward_def)

lemma forward_in_range: "forward s s' \<Longrightarrow> in_range s'"
  by (simp add: forward_def)

lemma exec_forward: "in_range s \<Longrightarrow> forward s (exec x s)"
  by (simp add: forward_def exec_step)

lemma U8_forward: "in_range s \<Longrightarrow> U8 s = (r, s') \<Longrightarrow> forward s s'"
  using exec_forward [of s "OpPrim PU8"] by (simp add: outcome_def)

lemma U16_forward: "in_range s \<Longrightarrow> U16 s = (r, s') \<Longrightarrow> forward s s'"
  using exec_forward [of s "OpPrim PU16"] by (simp add: outcome_def)

lemma U32_forward: "in_range s \<Longrightarrow> U32 s = (r, s') \<Longrightarrow> forward s s'"
  using exec_forward [of s "OpPrim PU32"] by (simp add: outcome_def)

lemma U64_forward: "in_range s \<Longrightarrow> U64 s = (r, s') \<Longrightarrow> forward s s'"
  using exec_forward [of s "OpPrim PU64"] by (simp add: outcome_def)

lemma GGUFString_forward: "in_range s \<Longrightarrow> GGUFString s mx = (r, s') \<Longrightarrow> forward s s'"
  using exec_forward [of s "OpString mx"] by simp

lemma Align_forward: "in_range s \<Longrightarrow> Align s n = (r, s') \<Longrightarrow> forward s s'"
  using exec_forward [of s "OpAlign n"] by simp

lemma trace_order: "\<forall>s' \<in> set (trace xs s). order s' = order s"
proof (induction xs arbitrary: s)
  case Nil
  then show ?case by simp
next
  case (Cons x xs)
  have "order (exec x s) = order s"
  proof (cases x)
    case (OpReadExact n)
    then show ?thesis using readExact_order [of s n] by (cases "readExact s n") auto
  next
    case (OpPrim q)
    then show ?thesis
      using readExact_order [of s "int (width q)"]
      by (cases "readExact s (int (width q))") (auto simp: read_prim_readExact)
  next
    case (OpString mx)
    then show ?thesis using GGUFString_order [of s mx] by (cases "GGUFString s mx") auto
  next
    case (OpAlign n)
    then show ?thesis using Align_order [of s n] by (cases "Align s n") auto
  qed
  with Cons.IH [of "exec x s"] show ?case by simp
qed

lemma sint_nonneg_nat: "0 \<le> sint (L :: u64) \<Longrightarrow> nat (sint L) = unat L"
proof -
  assume h: "0 \<le> sint L"
  have "sint L < 2 ^ 63" using sint_lt [of L] by simp
  then have "sint L < 2 ^ 64" by simp
  with h have "uint L = sint L" by (simp add: uint_sint take_bit_int_eq_self)
  then show ?thesis by (metis nat_uint_eq)
qed

lemma U64_Inr:
  "U64 s = (Inr L, s1) \<Longrightarrow>
     8 \<le> length (r_bytes s) \<and> (\<exists>bo. order s = Some bo \<and> L = Uint64 bo (take 8 (r_bytes s))) \<and>
     s1 = s\<lparr>r_bytes := drop 8 (r_bytes s), pos := pos s + 8\<rparr>"
  by (auto simp: U64_def split: prod.splits sum.splits option.splits dest!: readExact_Inr)

lemma U32_Inr:
  "U32 s = (Inr L, s1) \<Longrightarrow>
     4 \<le> length (r_bytes s) \<and> (\<exists>bo. order s = Some bo \<and> L = Uint32 bo (take 4 (r_bytes s))) \<and>
     s1 = s\<lparr>r_bytes := drop 4 (r_bytes s), pos := pos s + 4\<rparr>"
  by (auto simp: U32_def split: prod.splits sum.splits option.splits dest!: readExact_Inr)

lemma uint_alloc_sint: "uint (L :: u64) \<le> maxAlloc \<Longrightarrow> sint L = uint L"
proof -
  assume "uint L \<le> maxAlloc"
  then have "uint L < 2 ^ 63" by (simp add: maxAlloc_def)
  moreover have "- (2 ^ 63) \<le> uint L" by (rule order_trans [of _ 0]) simp_all
  ultimately have "signed_take_bit 63 (uint L) = uint L"
    by (intro signed_take_bit_int_eq_self)
  then show ?thesis by (simp add: sint_uint)
qed

lemma sint_alloc_uint: "0 \<le> sint (L :: u64) \<Longrightarrow> sint L \<le> maxAlloc \<Longrightarrow> uint L \<le> maxAlloc"
proof -
  assume h: "0 \<le> sint L" and a: "sint L \<le> maxAlloc"
  have "sint L < 2 ^ 63" using sint_lt [of L] by simp
  then have "sint L < 2 ^ 64" by simp
  with h have "uint L = sint L" by (simp add: uint_sint take_bit_int_eq_self)
  with a show ?thesis by simp
qed

lemma GGUFString_too_large:
  "U64 s = (Inr L, s1) \<Longrightarrow> mx < L \<Longrightarrow> GGUFString s mx = (Inl (StringTooLarge L mx), s1)"
  by (simp add: GGUFString_def)

lemma GGUFString_reads:
  assumes "U64 s = (Inr L, s1)" and "L \<le> mx" and "uint L \<le> maxAlloc"
    and "unat L \<le> length (r_bytes s1)"
  shows "GGUFString s mx = (Inr (string_of_bytes (take (unat L) (r_bytes s1))),
                      s1\<lparr>r_bytes := drop (unat L) (r_bytes s1), pos := pos s1 + L\<rparr>)"
proof -
  have "sint L = uint L" using assms(3) by (rule uint_alloc_sint)
  with assms show ?thesis
    by (simp add: GGUFString_def b_def readExact_def not_less)
qed

lemma GGUFString_Inr:
  "U64 s = (Inr L, s1) \<Longrightarrow> GGUFString s mx = (Inr str, s2) \<Longrightarrow>
   L \<le> mx \<and> uint L \<le> maxAlloc \<and> length str = unat L \<and>
   str = string_of_bytes (take (unat L) (r_bytes s1)) \<and>
   s2 = s1\<lparr>r_bytes := drop (unat L) (r_bytes s1), pos := pos s1 + L\<rparr>"
  by (auto simp: GGUFString_def b_def string_of_bytes_def sint_nonneg_nat not_less
        split: if_splits prod.splits sum.splits dest!: readExact_Inr intro: sint_alloc_uint)

lemma GGUFString_short:
  assumes "U64 s = (Inr L, s1)" and "L \<le> mx" and "uint L \<le> maxAlloc"
    and "length (r_bytes s1) < unat L"
  shows "GGUFString s mx =
     (Inl (if r_bytes s1 = [] then EOF else ErrUnexpectedEOF), s1\<lparr>r_bytes := []\<rparr>)"
proof -
  have "sint L = uint L" using assms(3) by (rule uint_alloc_sint)
  with assms show ?thesis
    by (simp add: GGUFString_def b_def readExact_def not_less)
qed

lemma GGUFString_out_of_range:
  assumes "U64 s = (Inr L, s1)" and "L \<le> mx" and "maxAlloc < uint L"
  shows "GGUFString s mx = (Inl (Panic ''makeslice: len out of range''), s1)"
proof -
  have "sint L < 0 \<or> maxAlloc < sint L"
  proof (cases "0 \<le> sint L")
    case True
    have "\<not> sint L \<le> maxAlloc" using sint_alloc_uint [OF True] assms(3) by auto
    then show ?thesis by simp
  next
    case False
    then show ?thesis by simp
  qed
  with assms(1,2) show ?thesis
    by (auto simp: GGUFString_def b_def readExact_def not_less)
qed

section \<open>Properties of array decoding\<close>

lemma discard_simps [simp]: "discard (Inl e) = Inl e" "discard (Inr v) = Inr ()"
  by (simp_all add: discard_def)





lemma HasPrefix_prefix: "HasPrefix s pre = prefix pre s"
  by (auto simp: HasPrefix_def prefix_def take_is_prefix
      intro: prefix_length_le) (metis append_eq_conv_conj)+

lemma prefixLoop_iff: "prefixLoop key pres = (\<exists>pre \<in> set pres. prefix pre key)"
  by (induction pres) (auto simp: HasPrefix_prefix)

lemma shouldExpand_iff:
  "shouldExpand po key =
     (expandArrays po key = Some True \<or> (\<exists>pre \<in> set (expandPrefixes po). prefix pre key))"
  by (auto simp: shouldExpand_def prefixLoop_iff split: option.splits)

lemma readArray_skip:
  assumes "\<not> shouldExpand (pol p) key"
    and "U32 (scn p) = (Inr et, s1)" and "U64 s1 = (Inr n, s2)"
  shows "readArray p key =
    (case bulkSkipArrayElements (p\<lparr>scn := s2\<rparr>) et n of
       (Inl e, p3) \<Rightarrow> (Inl e, p3)
     | (Inr _, p3) \<Rightarrow>
         (Inr (VPlaceholder ''array'' n
                 (if unat et < length typeNames then typeNames ! unat et else ''unknown''),
               ''array['' @ (if unat et < length typeNames then typeNames ! unat et else ''unknown'') @ '']'',
               False), p3))"
  using assms by (simp add: readArray_def Let_def)

lemma readArray_expand:
  assumes "shouldExpand (pol p) key"
    and "U32 (scn p) = (Inr et, s1)" and "U64 s1 = (Inr n, s2)"
  shows "readArray p key =
    (case readExpandedArray (p\<lparr>scn := s2\<rparr>) et n
            (if unat et < length typeNames then typeNames ! unat et else ''unknown'') of
       (Inl e, p3) \<Rightarrow> (Inl e, p3)
     | (Inr (result, lbl), p3) \<Rightarrow> (Inr (result, lbl, False), p3))"
  using assms by (simp add: readArray_def Let_def)

lemma expand_loop_nested:
  "readExpanded_loop p tArray k rs = (Inr xs, p') \<Longrightarrow>
     xs = rs @ map nested_placeholder (nested_headers p k) \<and>
     length (nested_headers p k) = k \<and>
     (\<forall>h \<in> set (nested_headers p k). unat (fst h) < length typeNames)"
proof (induction k arbitrary: p rs)
  case 0
  then show ?case by simp
next
  case (Suc k)
  from Suc.prems obtain t s1 c s2 u p3 where
    h: "U32 (scn p) = (Inr t, s1)" "U64 s1 = (Inr c, s2)"
       "bulkSkipArrayElements (p\<lparr>scn := s2\<rparr>) t c = (Inr u, p3)"
       "\<not> length typeNames \<le> unat t"
    and rest: "readExpanded_loop p3 tArray k (rs @ [nested_placeholder (t, c)]) = (Inr xs, p')"
    by (auto simp: nested_placeholder_def split: prod.splits sum.splits if_splits)
  from Suc.IH [OF rest] h show ?case by simp
qed

lemma length_scalars_typeNames: "length scalars = length typeNames"
  by (simp add: scalars_def typeNames_def)

lemma unknown_tag_not_special: "unknown_tag t \<Longrightarrow> t \<noteq> tArray \<and> t \<noteq> tString"
  by (auto simp: unknown_tag_def typeNames_def tArray_def tString_def)

lemma readScalar_unknown: "unknown_tag t \<Longrightarrow> readScalar p t = (Inl (BadScalarTag t), p)"
  using unknown_tag_not_special [of t]
  by (simp add: readScalar_def length_scalars_typeNames unknown_tag_def)

lemma bulkSkip_unknown:
  "unknown_tag t \<Longrightarrow> n \<noteq> 0 \<Longrightarrow> bulkSkipArrayElements p t n = (Inl (BadScalarTag t), p)"
proof -
  assume u: "unknown_tag t" and "n \<noteq> 0"
  then obtain k where k: "unat n = Suc k" by (metis not0_implies_Suc unat_eq_zero)
  from u show ?thesis
    using unknown_tag_not_special [of t]
    by (simp add: bulkSkipArrayElements_def k readScalar_unknown)
qed

lemma capInRange_iff: "capInRange n \<longleftrightarrow> uint n \<le> 2 ^ 44"
  by (simp add: capInRange_def safeCapFromCount_def maxInt_def maxAlloc_def)

lemma expand_cap_panic:
  "\<not> capInRange n \<Longrightarrow>
     readExpandedArray p t n nm = (Inl (Panic ''makeslice: cap out of range''), p)"
  by (simp add: readExpandedArray_def capInRange_def)

lemma reaches_unknown_skip:
  "reaches_unknown x p et k u q \<Longrightarrow>
     unknown_tag u \<and> bulkSkip_loop p et k = (Inl (BadScalarTag u), q)"
proof (induction rule: reaches_unknown.induct)
  case (here et x p k)
  then show ?case
    using unknown_tag_not_special [of et] by (simp add: readScalar_unknown)
next
  case (inside p t s1 c s2 u q x k)
  then show ?case by simp
next
  case (after p t s1 c s2 p3 x k u q)
  then show ?case by (simp add: bulkSkipArrayElements_def)
qed

lemma reaches_unknown_expand:
  "reaches_unknown x p et k u q \<Longrightarrow> x \<Longrightarrow>
     readExpanded_loop p et k rs = (Inl (BadScalarTag u), q)"
proof (induction arbitrary: rs rule: reaches_unknown.induct)
  case (here et x p k)
  then show ?case
    using unknown_tag_not_special [of et] by (simp add: readScalar_unknown)
next
  case (inside p t s1 c s2 u q x k)
  from reaches_unknown_skip [OF inside(3)]
  have "bulkSkipArrayElements (p\<lparr>scn := s2\<rparr>) t c = (Inl (BadScalarTag u), q)"
    by (simp add: bulkSkipArrayElements_def)
  with inside(1,2) show ?case by simp
next
  case (after p t s1 c s2 p3 x k u q)
  then show ?case by simp
qed

lemma reaches_unknown_outer:
  "unknown_tag et \<Longrightarrow> n \<noteq> 0 \<Longrightarrow> reaches_unknown x p et (unat n) et p"
proof -
  assume u: "unknown_tag et" and "n \<noteq> 0"
  then obtain k where k: "unat n = Suc k" by (metis not0_implies_Suc unat_eq_zero)
  from u show ?thesis unfolding k by (rule reaches_unknown.here)
qed

lemma readArray_reaches_unknown:
  assumes "U32 (scn p) = (Inr et, s1)" and "U64 s1 = (Inr n, s2)"
    and r: "reaches_unknown (shouldExpand (pol p) key) (p\<lparr>scn := s2\<rparr>) et (unat n) u q"
    and c: "shouldExpand (pol p) key \<longrightarrow> capInRange n"
  shows "unknown_tag u \<and> readArray p key = (Inl (BadScalarTag u), q)"
proof (cases "shouldExpand (pol p) key")
  case True
  with c have "\<not> maxAlloc < 16 * safeCapFromCount n" by (simp add: capInRange_def)
  with reaches_unknown_expand [OF r True, of "[]"] reaches_unknown_skip [OF r] assms(1,2) True
  show ?thesis by (simp add: readArray_def Let_def readExpandedArray_def)
next
  case False
  with reaches_unknown_skip [OF r] assms(1,2)
  show ?thesis by (simp add: readArray_def Let_def bulkSkipArrayElements_def)
qed

lemma readArray_cap_panic:
  assumes "U32 (scn p) = (Inr et, s1)" and "U64 s1 = (Inr n, s2)"
    and "shouldExpand (pol p) key" and "\<not> capInRange n"
  shows "readArray p key = (Inl (Panic ''makeslice: cap out of range''), p\<lparr>scn := s2\<rparr>)"
  using assms by (simp add: readArray_def Let_def expand_cap_panic)

lemma readArray_unknown_empty:
  assumes "U32 (scn p) = (Inr et, s1)" and "U64 s1 = (Inr 0, s2)" and "unknown_tag et"
  shows "readArray p key =
     (Inr (if shouldExpand (pol p) key then VSlice [] else VPlaceholder ''array'' 0 ''unknown'',
           ''array[unknown]'', False), p\<lparr>scn := s2\<rparr>)"
  using assms
  by (simp add: readArray_def Let_def unknown_tag_def readExpandedArray_def bulkSkipArrayElements_def
        safeCapFromCount_def maxInt_def maxAlloc_def)

lemma setMaxArray_simps [simp]:
  "scn (setMaxArray m p) = scn p"
  "maxString (pol (setMaxArray m p)) = maxString (pol p)"
  "(setMaxArray m p)\<lparr>scn := s\<rparr> = setMaxArray m (p\<lparr>scn := s\<rparr>)"
  "shouldExpand (pol (setMaxArray m p)) key = shouldExpand (pol p) key"
  by (simp_all add: setMaxArray_def shouldExpand_def)

lemma readScalar_setMaxArray:
  "readScalar (setMaxArray m p) t = map_prod id (setMaxArray m) (readScalar p t)"
  by (simp add: readScalar_def split: prod.splits sum.splits option.splits)

lemma bulkSkip_loop_setMaxArray:
  "bulkSkip_loop (setMaxArray m p) et k = map_prod id (setMaxArray m) (bulkSkip_loop p et k)"
proof (induction p et k rule: bulkSkip_loop.induct)
  case (1 p elementType)
  then show ?case by simp
next
  case (2 p elementType k)
  show ?case
  proof (cases "elementType = tArray")
    case True
    show ?thesis
    proof (cases "U32 (scn p)")
      case (Pair a s1)
      note u32 = Pair
      show ?thesis
      proof (cases a)
        case (Inl e)
        with True u32 show ?thesis by simp
      next
        case (Inr nestedET)
        note a = Inr
        show ?thesis
        proof (cases "U64 s1")
          case (Pair c s2)
          note u64 = Pair
          show ?thesis
          proof (cases c)
            case (Inl e)
            with True u32 a u64 show ?thesis by simp
          next
            case (Inr nestedN)
            note c = Inr
            obtain d p3 where inner: "bulkSkip_loop (p\<lparr>scn := s2\<rparr>) nestedET (unat nestedN) = (d, p3)"
              by (cases "bulkSkip_loop (p\<lparr>scn := s2\<rparr>) nestedET (unat nestedN)") auto
            note ih1 = "2.IH"(1) [OF True u32 [symmetric] a u64 [symmetric] c]
            show ?thesis
            proof (cases d)
              case (Inl e)
              with True u32 a u64 c inner ih1 show ?thesis by simp
            next
              case (Inr u)
              note ih2 = "2.IH"(2) [OF True u32 [symmetric] a u64 [symmetric] c inner [symmetric] Inr]
              with True u32 a u64 c inner ih1 Inr show ?thesis by simp
            qed
          qed
        qed
      qed
    qed
  next
    case False
    obtain a p1 where rs: "readScalar p elementType = (a, p1)"
      by (cases "readScalar p elementType") auto
    show ?thesis
    proof (cases a)
      case (Inl e)
      with False rs show ?thesis by (simp add: readScalar_setMaxArray)
    next
      case (Inr v)
      note ih = "2.IH"(3) [OF False rs [symmetric] Inr]
      with False rs Inr show ?thesis by (simp add: readScalar_setMaxArray)
    qed
  qed
qed

lemma bulkSkipArrayElements_setMaxArray:
  "bulkSkipArrayElements (setMaxArray m p) et n =
     map_prod id (setMaxArray m) (bulkSkipArrayElements p et n)"
  by (simp add: bulkSkipArrayElements_def bulkSkip_loop_setMaxArray)

lemma readExpanded_loop_setMaxArray:
  "readExpanded_loop (setMaxArray m p) et k rs =
     map_prod id (setMaxArray m) (readExpanded_loop p et k rs)"
proof (induction k arbitrary: p rs)
  case 0
  then show ?case by simp
next
  case (Suc k)
  show ?case
  proof (cases "et = tArray")
    case True
    then show ?thesis
      by (simp add: Suc.IH [unfolded True] bulkSkipArrayElements_setMaxArray
            split: prod.splits sum.splits)
  next
    case False
    then show ?thesis
      by (simp add: Suc.IH readScalar_setMaxArray split: prod.splits sum.splits)
  qed
qed

lemma readExpandedArray_setMaxArray:
  "readExpandedArray (setMaxArray m p) et n nm =
     map_prod id (setMaxArray m) (readExpandedArray p et n nm)"
  by (simp add: readExpandedArray_def readExpanded_loop_setMaxArray split: prod.splits sum.splits)

lemma readArray_setMaxArray:
  "readArray (setMaxArray m p) key = map_prod id (setMaxArray m) (readArray p key)"
  by (simp add: readArray_def Let_def readExpandedArray_setMaxArray
        bulkSkipArrayElements_setMaxArray split: prod.splits sum.splits)

lemma readExpanded_loop_length:
  "readExpanded_loop p et k rs = (Inr xs, p') \<Longrightarrow> length xs = length rs + k"
proof (induction k arbitrary: p rs)
  case 0
  then show ?case by simp
next
  case (Suc k)
  from Suc.prems obtain q x where "readExpanded_loop q et k (rs @ [x]) = (Inr xs, p')"
    by (auto split: prod.splits sum.splits if_splits)
  from Suc.IH [OF this] show ?case by simp
qed

lemma readExpandedArray_shape:
  "readExpandedArray p et n nm = (Inr (v, lbl), p') \<Longrightarrow> \<exists>xs. v = VSlice xs \<and> length xs = unat n"
  by (auto simp: readExpandedArray_def split: prod.splits sum.splits if_splits
        dest: readExpanded_loop_length)

section \<open>Properties of the header and the key-value stream\<close>

lemma run_calls_bound: "length (filter produced (run_calls al p k)) \<le> unat (kvRemain p)"
proof (induction k arbitrary: p)
  case 0
  then show ?case by simp
next
  case (Suc k)
  obtain r p' where n: "nextKV al p = (r, p')" by (cases "nextKV al p") auto
  from n show ?case
  proof (cases rule: nextKV_cases)
    case stop
    with n Suc.IH [of p] show ?thesis by (simp add: produced_def)
  next
    case (fail e)
    with n Suc.IH [of p'] show ?thesis by (auto simp: produced_def dest: frame_fields)
  next
    case (emit ev p3)
    with n have "nextKV al p = (Inr (ev, True), p')" by simp
    from nextKV_produced_unat [OF this] n emit(2) Suc.IH [of p'] show ?thesis
      by (simp add: produced_def)
  qed
qed

lemma mainLoop_bound:
  "mainLoop al mk p out = (e, out', p') \<Longrightarrow>
     length out' \<le> length out + unat (kvRemain p) \<and> unat (kvRemain p') \<le> unat (kvRemain p)"
proof (induction al mk p out arbitrary: e out' p' rule: mainLoop.induct)
  case (1 al matchKey p out)
  obtain r q where n: "nextKV al p = (r, q)" by (cases "nextKV al p") auto
  from n show ?case
  proof (cases rule: nextKV_cases)
    case stop
    with n "1.prems" show ?thesis by (subst (asm) mainLoop.simps) simp
  next
    case (fail err)
    with n "1.prems" show ?thesis
      by (subst (asm) mainLoop.simps) (auto dest: frame_fields)
  next
    case (emit ev p3)
    with n have nk: "nextKV al p = (Inr (ev, True), q)" by simp
    note dec = nextKV_produced_unat [OF nk]
    consider (a) "Key ev = ''''" | (b) "Key ev \<noteq> ''''" "\<not> matchKey (Key ev)"
      | (c) "Key ev \<noteq> ''''" "matchKey (Key ev)" by blast
    then show ?thesis
    proof cases
      case a
      with "1.prems" nk have "mainLoop al matchKey q out = (e, out', p')"
        by (subst (asm) mainLoop.simps) simp
      from "1.IH"(1) [OF nk [symmetric] refl refl _ a this] dec show ?thesis by simp
    next
      case b
      with "1.prems" nk have "mainLoop al matchKey q out = (e, out', p')"
        by (subst (asm) mainLoop.simps) simp
      from "1.IH"(2) [OF nk [symmetric] refl refl _ b(1) _ this] b(2) dec show ?thesis by simp
    next
      case c
      with "1.prems" nk have "mainLoop al matchKey q (out @ [ev]) = (e, out', p')"
        by (subst (asm) mainLoop.simps) simp
      from "1.IH"(3) [OF nk [symmetric] refl refl _ c(1) _ this] c(2) dec show ?thesis by simp
    qed
  qed
qed

lemma mainLoop_filter:
  "mainLoop al mk p out = (e, out', p') \<Longrightarrow> \<exists>out2'. mainLoop al mk2 p out2 = (e, out2', p')"
proof (induction al mk p out arbitrary: e out' p' out2 rule: mainLoop.induct)
  case (1 al matchKey p out)
  obtain r q where n: "nextKV al p = (r, q)" by (cases "nextKV al p") auto
  from n show ?case
  proof (cases rule: nextKV_cases)
    case stop
    with n "1.prems" have "e = None" "p' = q" by (subst (asm) mainLoop.simps, simp)+
    with n stop show ?thesis by (subst mainLoop.simps) simp
  next
    case (fail err)
    with n "1.prems" have "e = Some err" "p' = q" by (subst (asm) mainLoop.simps, simp)+
    with n fail show ?thesis by (subst mainLoop.simps) simp
  next
    case (emit ev p3)
    with n have nk: "nextKV al p = (Inr (ev, True), q)" by simp
    have step: "\<exists>o2. mainLoop al mk2 p out2 = mainLoop al mk2 q o2" for out2
      using nk by (subst mainLoop.simps) auto
    consider (a) "Key ev = ''''" | (b) "Key ev \<noteq> ''''" "\<not> matchKey (Key ev)"
      | (c) "Key ev \<noteq> ''''" "matchKey (Key ev)" by blast
    then have "\<exists>o2'. mainLoop al mk2 q o2 = (e, o2', p')" for o2
    proof cases
      case a
      with "1.prems" nk have "mainLoop al matchKey q out = (e, out', p')"
        by (subst (asm) mainLoop.simps) simp
      from "1.IH"(1) [OF nk [symmetric] refl refl _ a this] show ?thesis by simp
    next
      case b
      with "1.prems" nk have "mainLoop al matchKey q out = (e, out', p')"
        by (subst (asm) mainLoop.simps) simp
      from "1.IH"(2) [OF nk [symmetric] refl refl _ b(1) _ this] b(2) show ?thesis by simp
    next
      case c
      with "1.prems" nk have "mainLoop al matchKey q (out @ [ev]) = (e, out', p')"
        by (subst (asm) mainLoop.simps) simp
      from "1.IH"(3) [OF nk [symmetric] refl refl _ c(1) _ this] c(2) show ?thesis by simp
    qed
    with step [of out2] show ?thesis by metis
  qed
qed

lemma mainLoop_filter_eq:
  "fst (mainLoop al mk1 p out1) = fst (mainLoop al mk2 p out2) \<and>
   snd (snd (mainLoop al mk1 p out1)) = snd (snd (mainLoop al mk2 p out2))"
proof -
  obtain e o1 p' where m: "mainLoop al mk1 p out1 = (e, o1, p')"
    by (cases "mainLoop al mk1 p out1") auto
  from mainLoop_filter [OF m, of mk2 out2] m show ?thesis by auto
qed

lemma newParser_kvRemain: "newParser r fsize po = Inr (q, h) \<Longrightarrow> kvRemain q = KVCount h"
  by (auto simp: newParser_def Let_def split: prod.splits sum.splits if_splits option.splits)

lemma readExact_header:
  "length hb = 24 \<Longrightarrow>
   readExact (newScanner (hb @ rest)) 24 = (Inr hb, \<lparr>r_bytes = rest, order = None, pos = 24\<rparr>)"
  by (simp add: readExact_def maxAlloc_def newScanner_def)

lemma newParser_LE:
  assumes "length hb = 24" and "string_of_bytes (slice hb 0 4) = magicGGUF"
    and "le_uint32 (slice hb 4 8) = 3"
  shows "newParser (hb @ rest) fsize po =
     Inr (\<lparr>scn = \<lparr>r_bytes = rest, order = Some LittleEndian, pos = 24\<rparr>, fileSize = fsize,
            endianHint = ''LE'', kvRemain = le_uint64 (slice hb 16 24), version = 3,
            tc = le_uint64 (slice hb 8 16), kv = le_uint64 (slice hb 16 24), pol = po\<rparr>,
          \<lparr>Kind = ''header'', Version = 3, TensorCount = le_uint64 (slice hb 8 16),
            KVCount = le_uint64 (slice hb 16 24)\<rparr>)"
  using assms by (simp add: newParser_def readExact_header Let_def Uint64_def)

lemma newParser_BE:
  assumes "length hb = 24" and "string_of_bytes (slice hb 0 4) = magicGGUF"
    and "le_uint32 (slice hb 4 8) \<noteq> 3" and "be_uint32 (slice hb 4 8) = 3"
  shows "newParser (hb @ rest) fsize po =
     Inr (\<lparr>scn = \<lparr>r_bytes = rest, order = Some BigEndian, pos = 24\<rparr>, fileSize = fsize,
            endianHint = ''BE'', kvRemain = be_uint64 (slice hb 16 24), version = 3,
            tc = be_uint64 (slice hb 8 16), kv = be_uint64 (slice hb 16 24), pol = po\<rparr>,
          \<lparr>Kind = ''header'', Version = 3, TensorCount = be_uint64 (slice hb 8 16),
            KVCount = be_uint64 (slice hb 16 24)\<rparr>)"
  using assms by (simp add: newParser_def readExact_header Let_def Uint64_def)

lemma newParser_unsupported:
  assumes "length hb = 24" and "string_of_bytes (slice hb 0 4) = magicGGUF"
    and "le_uint32 (slice hb 4 8) \<noteq> 3" and "be_uint32 (slice hb 4 8) \<noteq> 3"
  shows "newParser (hb @ rest) fsize po =
     Inl (UnsupportedVersion (le_uint32 (slice hb 4 8)) (be_uint32 (slice hb 4 8)))"
  using assms by (simp add: newParser_def readExact_header Let_def)

section \<open>The position across the calls of the parser\<close>

lemma dec_forward:
  assumes "\<And>s r s'. in_range s \<Longrightarrow> f s = (r, s') \<Longrightarrow> forward s s'"
    and "dec f c s = (r, s')" and "in_range s"
  shows "forward s s'"
  using assms(2,3) by (auto simp: dec_def split: prod.splits sum.splits dest: assms(1))

lemma scalars_forward:
  assumes "n < length scalars" and "scalars ! n = Some d" and "d s = (r, s')" and "in_range s"
  shows "forward s s'"
proof -
  from assms(1,2) have "Some d \<in> set scalars" by (metis nth_mem)
  then consider c where "d = dec U8 c" | c where "d = dec U16 c"
     | c where "d = dec U32 c" | c where "d = dec U64 c"
    by (auto simp: scalars_def I8_eq I16_eq I32_eq I64_eq F32_eq F64_eq)
  then show ?thesis
    using assms(3,4)
    by cases (auto elim!: dec_forward [rotated] dest: U8_forward U16_forward U32_forward U64_forward)
qed

lemma readScalar_forward:
  "readScalar p t = (r, p') \<Longrightarrow> in_range (scn p) \<Longrightarrow> forward (scn p) (scn p')"
  by (auto simp: readScalar_def not_le forward_refl split: prod.splits sum.splits option.splits if_splits
        dest: scalars_forward GGUFString_forward)

lemma bulkSkip_loop_forward:
  "bulkSkip_loop p et k = (r, p') \<Longrightarrow> in_range (scn p) \<Longrightarrow> forward (scn p) (scn p')"
proof (induction p et k arbitrary: r p' rule: bulkSkip_loop.induct)
  case (1 p elementType)
  then show ?case by (simp add: forward_refl)
next
  case (2 p elementType k)
  note ir = \<open>in_range (scn p)\<close>
  show ?case
  proof (cases "elementType = tArray")
    case True
    show ?thesis
    proof (cases "U32 (scn p)")
      case (Pair a s1)
      note u32 = Pair
      have f1: "forward (scn p) s1" using U32_forward [OF ir u32] .
      show ?thesis
      proof (cases a)
        case (Inl e)
        with "2.prems" True u32 f1 show ?thesis by auto
      next
        case (Inr nestedET)
        note a = Inr
        show ?thesis
        proof (cases "U64 s1")
          case (Pair c s2)
          note u64 = Pair
          have f2: "forward (scn p) s2"
            using f1 U64_forward [OF forward_in_range [OF f1] u64] by (rule forward_trans)
          show ?thesis
          proof (cases c)
            case (Inl e)
            with "2.prems" True u32 a u64 f2 show ?thesis by auto
          next
            case (Inr nestedN)
            note c = Inr
            obtain d p3 where inner: "bulkSkip_loop (p\<lparr>scn := s2\<rparr>) nestedET (unat nestedN) = (d, p3)"
              by (cases "bulkSkip_loop (p\<lparr>scn := s2\<rparr>) nestedET (unat nestedN)") auto
            have f3: "forward (scn p) (scn p3)"
              using "2.IH"(1) [OF True u32 [symmetric] a u64 [symmetric] c inner] f2
              by (auto intro: forward_trans dest: forward_in_range)
            show ?thesis
            proof (cases d)
              case (Inl e)
              with "2.prems" True u32 a u64 c inner f3 show ?thesis by auto
            next
              case (Inr u)
              have "bulkSkip_loop p3 elementType k = (r, p')"
                using "2.prems" True u32 a u64 c inner Inr by simp
              from "2.IH"(2) [OF True u32 [symmetric] a u64 [symmetric] c inner [symmetric] Inr this] f3
              show ?thesis by (auto intro: forward_trans dest: forward_in_range)
            qed
          qed
        qed
      qed
    qed
  next
    case False
    obtain a p1 where rs: "readScalar p elementType = (a, p1)"
      by (cases "readScalar p elementType") auto
    note f1 = readScalar_forward [OF rs ir]
    show ?thesis
    proof (cases a)
      case (Inl e)
      with "2.prems" False rs f1 show ?thesis by auto
    next
      case (Inr v)
      have "bulkSkip_loop p1 elementType k = (r, p')"
        using "2.prems" False rs Inr by simp
      from "2.IH"(3) [OF False rs [symmetric] Inr this] f1
      show ?thesis by (auto intro: forward_trans dest: forward_in_range)
    qed
  qed
qed

lemma bulkSkipArrayElements_forward:
  "bulkSkipArrayElements p et n = (r, p') \<Longrightarrow> in_range (scn p) \<Longrightarrow> forward (scn p) (scn p')"
  by (auto simp: bulkSkipArrayElements_def dest: bulkSkip_loop_forward)

lemma readExpanded_loop_forward:
  "readExpanded_loop p et k rs = (r, p') \<Longrightarrow> in_range (scn p) \<Longrightarrow> forward (scn p) (scn p')"
proof (induction k arbitrary: p rs)
  case 0
  then show ?case by (simp add: forward_refl)
next
  case (Suc k)
  note ir = \<open>in_range (scn p)\<close>
  show ?case
  proof (cases "et = tArray")
    case True
    show ?thesis
    proof (cases "U32 (scn p)")
      case (Pair a s1)
      note u32 = Pair
      have f1: "forward (scn p) s1" using U32_forward [OF ir u32] .
      show ?thesis
      proof (cases a)
        case (Inl e)
        with Suc.prems True u32 f1 show ?thesis by auto
      next
        case (Inr nestedET)
        note a = Inr
        show ?thesis
        proof (cases "U64 s1")
          case (Pair c s2)
          note u64 = Pair
          have f2: "forward (scn p) s2"
            using f1 U64_forward [OF forward_in_range [OF f1] u64] by (rule forward_trans)
          show ?thesis
          proof (cases c)
            case (Inl e)
            with Suc.prems True u32 a u64 f2 show ?thesis by auto
          next
            case (Inr nestedN)
            note c = Inr
            obtain d p3 where inner: "bulkSkipArrayElements (p\<lparr>scn := s2\<rparr>) nestedET nestedN = (d, p3)"
              by (cases "bulkSkipArrayElements (p\<lparr>scn := s2\<rparr>) nestedET nestedN") auto
            have f3: "forward (scn p) (scn p3)"
              using bulkSkipArrayElements_forward [OF inner] f2
              by (auto intro: forward_trans dest: forward_in_range)
            show ?thesis
            proof (cases d)
              case (Inl e)
              with Suc.prems True u32 a u64 c inner f3 show ?thesis by auto
            next
              case (Inr u)
              show ?thesis
              proof (cases "length typeNames \<le> unat nestedET")
                case True
                with Suc.prems \<open>et = tArray\<close> u32 a u64 c inner Inr f3 show ?thesis by auto
              next
                case False
                with Suc.prems \<open>et = tArray\<close> u32 a u64 c inner Inr
                have "readExpanded_loop p3 et k
                   (rs @ [VPlaceholder ''nested_array'' nestedN (typeNames ! unat nestedET)]) = (r, p')"
                  by simp
                from Suc.IH [OF this] f3 show ?thesis
                  by (auto intro: forward_trans dest: forward_in_range)
              qed
            qed
          qed
        qed
      qed
    qed
  next
    case False
    obtain a p1 where rs: "readScalar p et = (a, p1)"
      by (cases "readScalar p et") auto
    note f1 = readScalar_forward [OF rs ir]
    show ?thesis
    proof (cases a)
      case (Inl e)
      with Suc.prems False rs f1 show ?thesis by auto
    next
      case (Inr vl)
      obtain v l where "vl = (v, l)" by (cases vl)
      with Suc.prems False rs Inr have "readExpanded_loop p1 et k (rs @ [v]) = (r, p')" by simp
      from Suc.IH [OF this] f1 show ?thesis
        by (auto intro: forward_trans dest: forward_in_range)
    qed
  qed
qed

lemma readExpandedArray_forward:
  "readExpandedArray p et n nm = (r, p') \<Longrightarrow> in_range (scn p) \<Longrightarrow> forward (scn p) (scn p')"
  by (auto simp: readExpandedArray_def forward_refl split: prod.splits sum.splits if_splits
        dest: readExpanded_loop_forward)

lemma readArray_forward:
  assumes ra: "readArray p key = (r, p')" and ir: "in_range (scn p)"
  shows "forward (scn p) (scn p')"
proof (cases "U32 (scn p)")
  case (Pair a s1)
  note u32 = Pair
  have f1: "forward (scn p) s1" using U32_forward [OF ir u32] .
  show ?thesis
  proof (cases a)
    case (Inl e)
    with ra u32 f1 show ?thesis by (auto simp: readArray_def)
  next
    case (Inr et)
    note a = Inr
    show ?thesis
    proof (cases "U64 s1")
      case (Pair c s2)
      have f2: "forward (scn p) s2"
        using f1 U64_forward [OF forward_in_range [OF f1] Pair] by (rule forward_trans)
      show ?thesis
      proof (cases c)
        case (Inl e)
        with ra u32 a Pair f2 show ?thesis by (auto simp: readArray_def)
      next
        case (Inr n)
        obtain d p3 where x: "readExpandedArray (p\<lparr>scn := s2\<rparr>) et n (elemNameOf et) = (d, p3)"
          by (cases "readExpandedArray (p\<lparr>scn := s2\<rparr>) et n (elemNameOf et)") auto
        obtain d' p3' where y: "bulkSkipArrayElements (p\<lparr>scn := s2\<rparr>) et n = (d', p3')"
          by (cases "bulkSkipArrayElements (p\<lparr>scn := s2\<rparr>) et n") auto
        from readExpandedArray_forward [OF x] bulkSkipArrayElements_forward [OF y] f2
        have "forward (scn p) (scn p3)" "forward (scn p) (scn p3')"
          by (auto intro: forward_trans dest: forward_in_range)
        with ra u32 a Pair Inr x y show ?thesis
          by (auto simp: readArray_def Let_def elemNameOf_def split: if_splits prod.splits sum.splits)
      qed
    qed
  qed
qed

lemma readValue_forward:
  assumes rv: "readValue al p tag key = (r, p')" and ir: "in_range (scn p)"
  shows "forward (scn p) (scn p')"
proof -
  obtain a s1 where al: "(if al then Align8 (scn p) else (Inr (), scn p)) = (a, s1)"
    by (cases "if al then Align8 (scn p) else (Inr (), scn p)") auto
  then have f1: "forward (scn p) s1"
    using ir by (auto simp: Align8_def forward_refl split: if_splits dest: Align_forward)
  show ?thesis
  proof (cases a)
    case (Inl e)
    with rv al f1 show ?thesis by (auto simp: readValue_def)
  next
    case (Inr u)
    obtain d p2 where x: "readArray (p\<lparr>scn := s1\<rparr>) key = (d, p2)"
      by (cases "readArray (p\<lparr>scn := s1\<rparr>) key") auto
    obtain d' p2' where y: "readScalar (p\<lparr>scn := s1\<rparr>) tag = (d', p2')"
      by (cases "readScalar (p\<lparr>scn := s1\<rparr>) tag") auto
    from readArray_forward [OF x] readScalar_forward [OF y] f1
    have "forward (scn p) (scn p2)" "forward (scn p) (scn p2')"
      by (auto intro: forward_trans dest: forward_in_range)
    with rv al Inr x y show ?thesis
      by (auto simp: readValue_def Let_def split: if_splits prod.splits sum.splits)
  qed
qed

lemma nextKV_forward:
  assumes nk: "nextKV al p = (r, p')" and ir: "in_range (scn p)"
  shows "forward (scn p) (scn p')"
proof (cases "kvRemain p = 0")
  case True
  with nk ir show ?thesis by (simp add: nextKV_def forward_refl)
next
  case False
  note nz = False
  obtain a s1 where g: "GGUFString (scn p) (maxString (pol p)) = (a, s1)"
    by (cases "GGUFString (scn p) (maxString (pol p))") auto
  have f1: "forward (scn p) s1" using GGUFString_forward [OF ir g] .
  show ?thesis
  proof (cases a)
    case (Inl e)
    with nk nz g f1 show ?thesis by (auto simp: nextKV_def)
  next
    case (Inr key)
    note a = Inr
    obtain c s2 where u: "U32 s1 = (c, s2)" by (cases "U32 s1") auto
    have f2: "forward (scn p) s2"
      using f1 U32_forward [OF forward_in_range [OF f1] u] by (rule forward_trans)
    show ?thesis
    proof (cases c)
      case (Inl e)
      with nk nz g a u f2 show ?thesis by (auto simp: nextKV_def)
    next
      case (Inr tag)
      obtain d p3 where rv: "readValue al (p\<lparr>scn := s2\<rparr>) tag key = (d, p3)"
        by (cases "readValue al (p\<lparr>scn := s2\<rparr>) tag key") auto
      from readValue_forward [OF rv] f2 have "forward (scn p) (scn p3)"
        by (auto intro: forward_trans dest: forward_in_range)
      with nk nz g a u Inr rv show ?thesis
        by (auto simp: nextKV_def Let_def split: if_splits prod.splits sum.splits)
    qed
  qed
qed

lemma newParser_in_range:
  assumes len: "length bs < 2 ^ 64" and np: "newParser bs fsize po = Inr (p, h)"
  shows "in_range (scn p)"
proof -
  obtain a s1 where r: "readExact (newScanner bs) 24 = (a, s1)"
    by (cases "readExact (newScanner bs) 24") auto
  from readExact_step [OF newScanner_in_range [OF len] r] have "in_range s1" by simp
  with np r show ?thesis
    by (auto simp: newParser_def Let_def in_range_order split: sum.splits if_splits option.splits)
qed

section \<open>The examples evaluated\<close>




lemma ex_u8_count: "U64 \<lparr>r_bytes = [2, 0, 0, 0, 0, 0, 0, 0,  5, 6, 9], order = Some LittleEndian, pos = 28\<rparr> =
   (Inr 2, \<lparr>r_bytes = [5, 6, 9], order = Some LittleEndian, pos = 36\<rparr>)"
  by (simp add: U64_def readExact_def maxAlloc_def Uint64_def le_uint64_def)




lemma unguarded_index_example:
  "fst (bulkSkipArrayElements (parserAt bytes_bad_nested defaultPolicy) tArray 2) = Inr () \<and>
   pos (scn (snd (bulkSkipArrayElements (parserAt bytes_bad_nested defaultPolicy) tArray 2))) = 48 \<and>
   fst (readExpandedArray (parserAt bytes_bad_nested defaultPolicy) tArray 2 ''array'') =
     Inl (Panic ''index out of range'') \<and>
   pos (scn (snd (readExpandedArray (parserAt bytes_bad_nested defaultPolicy) tArray 2 ''array''))) = 36"
  by code_simp

lemma ex_nested_expanded: "fst (readExpandedArray (parserAt bytes_nested2 defaultPolicy) tArray 2 ''array'') =
    Inr (VSlice [VPlaceholder ''nested_array'' 1 ''array'', VPlaceholder ''nested_array'' 0 ''uint32''],
         ''array[array]'')"
  by code_simp

lemma ex_nested_headers: "nested_headers (parserAt bytes_nested2 defaultPolicy) (unat (2 :: u64)) = [(9, 1), (4, 0)]"
  by code_simp

lemma ex_unknown_tag: "U32 (scn (parserAt bytes_unknown_one po)) =
   (Inr 99, \<lparr>r_bytes = [1, 0, 0, 0, 0, 0, 0, 0,  7], order = Some LittleEndian, pos = 28\<rparr>)"
  by (simp add: parserAt_def bytes_unknown_one_def U32_def readExact_def maxAlloc_def Uint32_def le_uint32_def)

lemma ex_unknown_count: "U64 \<lparr>r_bytes = [1, 0, 0, 0, 0, 0, 0, 0,  7], order = Some LittleEndian, pos = 28\<rparr> =
   (Inr 1, \<lparr>r_bytes = [7], order = Some LittleEndian, pos = 36\<rparr>)"
  by (simp add: U64_def readExact_def maxAlloc_def Uint64_def le_uint64_def)

lemma ex_unknown_is_unknown: "unknown_tag 99 \<and> (1 :: u64) \<noteq> 0"
  by (simp add: unknown_tag_def typeNames_def)

lemma ex_second_header:
  "U32 (scn (parserAt bytes_unknown_second po)) =
     (Inr tArray, \<lparr>r_bytes = drop 4 bytes_unknown_second, order = Some LittleEndian, pos = 28\<rparr>) \<and>
   U64 \<lparr>r_bytes = drop 4 bytes_unknown_second, order = Some LittleEndian, pos = 28\<rparr> =
     (Inr 2, \<lparr>r_bytes = drop 12 bytes_unknown_second, order = Some LittleEndian, pos = 36\<rparr>)"
  by (simp add: parserAt_def bytes_unknown_second_def tArray_def U32_def U64_def readExact_def
        maxAlloc_def Uint32_def Uint64_def le_uint32_def le_uint64_def)

lemma ex_second_first_element:
  "U32 \<lparr>r_bytes = drop 12 bytes_unknown_second, order = Some LittleEndian, pos = 36\<rparr> =
     (Inr 0, \<lparr>r_bytes = drop 16 bytes_unknown_second, order = Some LittleEndian, pos = 40\<rparr>) \<and>
   U64 \<lparr>r_bytes = drop 16 bytes_unknown_second, order = Some LittleEndian, pos = 40\<rparr> =
     (Inr 1, \<lparr>r_bytes = drop 24 bytes_unknown_second, order = Some LittleEndian, pos = 48\<rparr>) \<and>
   bulkSkipArrayElements
     (p\<lparr>scn := \<lparr>r_bytes = drop 24 bytes_unknown_second, order = Some LittleEndian, pos = 48\<rparr>\<rparr>) 0 1 =
     (Inr (), p\<lparr>scn := \<lparr>r_bytes = drop 25 bytes_unknown_second, order = Some LittleEndian, pos = 49\<rparr>\<rparr>) \<and>
   unat (0 :: u32) < length typeNames"
  by (simp add: bytes_unknown_second_def U32_def U64_def U8_def readExact_def
        maxAlloc_def Uint32_def Uint64_def le_uint32_def le_uint64_def
        bulkSkipArrayElements_def readScalar_def scalars_def dec_def tString_def tArray_def
        typeNames_def)

lemma ex_second_second_element:
  "U32 \<lparr>r_bytes = drop 25 bytes_unknown_second, order = Some LittleEndian, pos = 49\<rparr> =
     (Inr 99, \<lparr>r_bytes = drop 29 bytes_unknown_second, order = Some LittleEndian, pos = 53\<rparr>) \<and>
   U64 \<lparr>r_bytes = drop 29 bytes_unknown_second, order = Some LittleEndian, pos = 53\<rparr> =
     (Inr 1, \<lparr>r_bytes = [7], order = Some LittleEndian, pos = 61\<rparr>) \<and>
   unknown_tag 99"
  by (simp add: bytes_unknown_second_def U32_def U64_def readExact_def unknown_tag_def typeNames_def
        maxAlloc_def Uint32_def Uint64_def le_uint32_def le_uint64_def)

lemma ex_second_reaches:
  "reaches_unknown x
     ((parserAt bytes_unknown_second po)
        \<lparr>scn := \<lparr>r_bytes = drop 12 bytes_unknown_second, order = Some LittleEndian, pos = 36\<rparr>\<rparr>)
     tArray (unat (2 :: u64)) 99
     ((parserAt bytes_unknown_second po)\<lparr>scn := \<lparr>r_bytes = [7], order = Some LittleEndian, pos = 61\<rparr>\<rparr>)"
proof -
  let ?P = "parserAt bytes_unknown_second po"
  have two: "unat (2 :: u64) = Suc (Suc 0)" and one: "unat (1 :: u64) = Suc 0" by simp_all
  have "reaches_unknown False
      (?P\<lparr>scn := \<lparr>r_bytes = [7], order = Some LittleEndian, pos = 61\<rparr>\<rparr>) 99 (unat (1 :: u64)) 99
      (?P\<lparr>scn := \<lparr>r_bytes = [7], order = Some LittleEndian, pos = 61\<rparr>\<rparr>)"
    unfolding one using ex_second_second_element by (intro reaches_unknown.here) simp
  with reaches_unknown.inside [of
      "?P\<lparr>scn := \<lparr>r_bytes = drop 25 bytes_unknown_second, order = Some LittleEndian, pos = 49\<rparr>\<rparr>"
      99 "\<lparr>r_bytes = drop 29 bytes_unknown_second, order = Some LittleEndian, pos = 53\<rparr>"
      1 "\<lparr>r_bytes = [7], order = Some LittleEndian, pos = 61\<rparr>" 99
      "?P\<lparr>scn := \<lparr>r_bytes = [7], order = Some LittleEndian, pos = 61\<rparr>\<rparr>" x 0]
    ex_second_second_element
  have second: "reaches_unknown x
      (?P\<lparr>scn := \<lparr>r_bytes = drop 25 bytes_unknown_second, order = Some LittleEndian, pos = 49\<rparr>\<rparr>)
      tArray (Suc 0) 99
      (?P\<lparr>scn := \<lparr>r_bytes = [7], order = Some LittleEndian, pos = 61\<rparr>\<rparr>)"
    by simp
  from reaches_unknown.after [of
      "?P\<lparr>scn := \<lparr>r_bytes = drop 12 bytes_unknown_second, order = Some LittleEndian, pos = 36\<rparr>\<rparr>"
      0 "\<lparr>r_bytes = drop 16 bytes_unknown_second, order = Some LittleEndian, pos = 40\<rparr>"
      1 "\<lparr>r_bytes = drop 24 bytes_unknown_second, order = Some LittleEndian, pos = 48\<rparr>"
      "?P\<lparr>scn := \<lparr>r_bytes = drop 25 bytes_unknown_second, order = Some LittleEndian, pos = 49\<rparr>\<rparr>"
      x "Suc 0" 99
      "?P\<lparr>scn := \<lparr>r_bytes = [7], order = Some LittleEndian, pos = 61\<rparr>\<rparr>"]
    ex_second_first_element [of ?P] second
  show ?thesis unfolding two by simp
qed

lemma ex_second_cap: "capInRange 2 \<and> shouldExpand (pol (parserAt bs (expandPolicy ''x''))) ''x'' \<and>
    \<not> shouldExpand (pol (parserAt bs defaultPolicy)) ''x''"
  by (simp add: capInRange_iff parserAt_def expandPolicy_def defaultPolicy_def shouldExpand_def)

lemma ex_u8_tag: "U32 (scn (parserAt bytes_u8x2 po)) =
   (Inr 0, \<lparr>r_bytes = [2, 0, 0, 0, 0, 0, 0, 0,  5, 6, 9], order = Some LittleEndian, pos = 28\<rparr>)"
  by (simp add: parserAt_def bytes_u8x2_def U32_def readExact_def maxAlloc_def Uint32_def le_uint32_def)

lemma ex_x_is_expand_key: "expandArrays (pol (parserAt bytes_u8x2 (expandPolicy ''x''))) ''x'' = Some True"
  by (simp add: parserAt_def expandPolicy_def)

lemma ex_x_expanded: "fst (readArray (parserAt bytes_u8x2 (expandPolicy ''x'')) ''x'') =
     Inr (VSlice [VUint8 5, VUint8 6], ''array[uint8]'', False)"
  by code_simp

lemma ex_y_skipped: "fst (readArray (parserAt bytes_u8x2 (expandPolicy ''x'')) ''y'') =
     Inr (VPlaceholder ''array'' 2 ''uint8'', ''array[uint8]'', False)"
  by code_simp

lemma ex_y_matches_no_rule: "expandArrays (pol (parserAt bytes_u8x2 (expandPolicy ''x''))) ''y'' \<noteq> Some True \<and>
     (\<forall>pre \<in> set (expandPrefixes (pol (parserAt bytes_u8x2 (expandPolicy ''x'')))). \<not> prefix pre ''y'')"
  by (simp add: parserAt_def expandPolicy_def defaultPolicy_def)

lemma ex_scenario_record: "fst (nextKV False (parserAt scenario_kv defaultPolicy)) =
    Inr (\<lparr>Key = ''a'', Type = ''uint32'', Value = Some (VUint32 42)\<rparr>, True)"
  by code_simp

lemma ex_truncated_fails: "fst (nextKV False (parserAt [1, 0, 0] defaultPolicy)) = Inl ErrUnexpectedEOF"
  by code_simp

lemma ex_prologue_length: "length prologue_be = 24"
  by (simp add: prologue_be_def)

lemma ex_prologue_magic: "string_of_bytes (slice prologue_be 0 4) = magicGGUF"
  by code_simp

lemma ex_prologue_version: "le_uint32 (slice prologue_be 4 8) \<noteq> 3 \<and> be_uint32 (slice prologue_be 4 8) = 3"
  by (simp add: prologue_be_def slice_def le_uint32_def be_uint32_def)

lemma ex_prologue_counts: "be_uint64 (slice prologue_be 8 16) = 1 \<and> be_uint64 (slice prologue_be 16 24) = 2"
  by (simp add: prologue_be_def slice_def be_uint64_def)

lemma string_a: "string_of_bytes [97] = ''a''"
  by code_simp

lemma scenario_header:
  "newParser scenario fsize po =
     Inr (\<lparr>scn = \<lparr>r_bytes = scenario_kv, order = Some LittleEndian, pos = 24\<rparr>, fileSize = fsize,
            endianHint = ''LE'', kvRemain = 1, version = 3, tc = 1, kv = 1, pol = po\<rparr>,
          \<lparr>Kind = ''header'', Version = 3, TensorCount = 1, KVCount = 1\<rparr>)"
proof -
  let ?hb = "[71, 71, 85, 70,  3, 0, 0, 0,  1, 0, 0, 0, 0, 0, 0, 0,  1, 0, 0, 0, 0, 0, 0, 0 :: byte]"
  have 1: "length ?hb = 24" by simp
  have 2: "string_of_bytes (slice ?hb 0 4) = magicGGUF" by code_simp
  have 3: "le_uint32 (slice ?hb 4 8) = 3" by (simp add: slice_def le_uint32_def)
  have 4: "le_uint64 (slice ?hb 8 16) = 1" "le_uint64 (slice ?hb 16 24) = 1"
    by (simp_all add: slice_def le_uint64_def)
  from newParser_LE [OF 1 2 3, of scenario_kv fsize po] show ?thesis
    by (simp only: 4 scenario_def)
qed

lemma scenario_key:
  "1 \<le> mx \<Longrightarrow>
   GGUFString \<lparr>r_bytes = scenario_kv, order = Some LittleEndian, pos = 24\<rparr> mx =
     (Inr ''a'', \<lparr>r_bytes = [4, 0, 0, 0,  42, 0, 0, 0], order = Some LittleEndian, pos = 33\<rparr>)"
  by (auto simp: GGUFString_def U64_def readExact_def maxAlloc_def b_def Uint64_def le_uint64_def
        scenario_kv_def string_a not_less)

lemma scenario_tag:
  "U32 \<lparr>r_bytes = [4, 0, 0, 0,  42, 0, 0, 0], order = Some LittleEndian, pos = 33\<rparr> =
     (Inr 4, \<lparr>r_bytes = [42, 0, 0, 0], order = Some LittleEndian, pos = 37\<rparr>)"
  by (simp add: U32_def readExact_def maxAlloc_def Uint32_def le_uint32_def)

lemma scenario_value:
  "scn p = \<lparr>r_bytes = [42, 0, 0, 0], order = Some LittleEndian, pos = 37\<rparr> \<Longrightarrow>
   readValue False p 4 key =
     (Inr (VUint32 42, ''uint32'', False),
      p\<lparr>scn := \<lparr>r_bytes = [], order = Some LittleEndian, pos = 41\<rparr>\<rparr>)"
  by (simp add: readValue_def tArray_def tString_def readScalar_def scalars_def dec_def
        U32_def readExact_def maxAlloc_def Uint32_def le_uint32_def typeLabel_def typeNames_def)

lemma ex_default_cap: "1 \<le> maxString defaultPolicy"
  by (simp add: defaultPolicy_def)

section \<open>The claims\<close>



text \<open>
  Claim C2, as stated, fails for element count 0: with element tag 99 and count 0 the
  loops of both branches run no iteration, and \<open>readArray\<close> returns a value.
\<close>

theorem unknown_tag_count_zero_counterexample:
  "unknown_tag 99 \<and>
   fst (readArray (parserAt bytes_unknown_empty defaultPolicy) ''x'') =
     Inr (VPlaceholder ''array'' 0 ''unknown'', ''array[unknown]'', False) \<and>
   fst (readArray (parserAt bytes_unknown_empty (expandPolicy ''x'')) ''x'') =
     Inr (VSlice [], ''array[unknown]'', False)"
  by code_simp

text \<open>
  Claim C2, amended.  After an array header with element tag \<open>et\<close> and count \<open>n\<close>:
  when the decode comes to a header whose tag \<open>u\<close> is outside the 13 known kinds and
  whose count is at least 1 (the outer header, or a nested one at any position and
  depth, the elements before it having been passed without error), \<open>readArray\<close>
  returns the bad-scalar-tag error for \<open>u\<close> and no value, with the parser in the
  state it had at that header.  This holds on the placeholder branch always, and on
  the expand branch when the outer count is at most \<open>2 ^ 44\<close> (\<open>capInRange\<close>: the
  result slice can be allocated) and the nested headers passed before have known tags;
  nothing is said here of the expand branch outside these conditions.  With an unknown
  outer tag and count 0 the decode succeeds with the empty result, and
  \<open>bulkSkipArrayElements\<close> passes any header with count 0 without looking at its tag.
\<close>

theorem unknown_tag_aborts_nonempty_array:
  assumes "U32 (scn p) = (Inr et, s1)" and "U64 s1 = (Inr n, s2)"
  shows "(\<forall>u q. reaches_unknown (shouldExpand (pol p) key) (p\<lparr>scn := s2\<rparr>) et (unat n) u q \<and>
              (shouldExpand (pol p) key \<longrightarrow> capInRange n) \<longrightarrow>
            unknown_tag u \<and> readArray p key = (Inl (BadScalarTag u), q)) \<and>
         (unknown_tag et \<and> n \<noteq> 0 \<and> (shouldExpand (pol p) key \<longrightarrow> capInRange n) \<longrightarrow>
            readArray p key = (Inl (BadScalarTag et), p\<lparr>scn := s2\<rparr>)) \<and>
         (unknown_tag et \<and> n = 0 \<longrightarrow>
            readArray p key =
              (Inr (if shouldExpand (pol p) key then VSlice []
                    else VPlaceholder ''array'' 0 ''unknown'', ''array[unknown]'', False),
               p\<lparr>scn := s2\<rparr>)) \<and>
         (\<forall>q t. bulkSkipArrayElements q t 0 = (Inr (), q)) \<and>
         (capInRange n \<longleftrightarrow> uint n \<le> 2 ^ 44)"
proof (intro conjI allI impI)
  fix u q
  assume "reaches_unknown (shouldExpand (pol p) key) (p\<lparr>scn := s2\<rparr>) et (unat n) u q \<and>
      (shouldExpand (pol p) key \<longrightarrow> capInRange n)"
  with readArray_reaches_unknown [OF assms, of key u q]
  show "unknown_tag u" and "readArray p key = (Inl (BadScalarTag u), q)" by simp_all
next
  assume a: "unknown_tag et \<and> n \<noteq> 0 \<and> (shouldExpand (pol p) key \<longrightarrow> capInRange n)"
  then have "reaches_unknown (shouldExpand (pol p) key) (p\<lparr>scn := s2\<rparr>) et (unat n) et
      (p\<lparr>scn := s2\<rparr>)"
    by (simp add: reaches_unknown_outer)
  with readArray_reaches_unknown [OF assms, of key et "p\<lparr>scn := s2\<rparr>"] a
  show "readArray p key = (Inl (BadScalarTag et), p\<lparr>scn := s2\<rparr>)" by simp
next
  assume "unknown_tag et \<and> n = 0"
  with assms show "readArray p key =
      (Inr (if shouldExpand (pol p) key then VSlice []
            else VPlaceholder ''array'' 0 ''unknown'', ''array[unknown]'', False),
       p\<lparr>scn := s2\<rparr>)"
    using readArray_unknown_empty [of p et s1 s2 key] by simp
next
  fix q t
  show "bulkSkipArrayElements q t 0 = (Inr (), q)"
    by (simp add: bulkSkipArrayElements_def)
next
  show "capInRange n \<longleftrightarrow> uint n \<le> 2 ^ 44" by (rule capInRange_iff)
qed

theorem unknown_tag_aborts_nonempty_array_witness:
  "U32 (scn (parserAt bytes_unknown_second defaultPolicy)) =
     (Inr tArray, \<lparr>r_bytes = drop 4 bytes_unknown_second, order = Some LittleEndian, pos = 28\<rparr>) \<and>
   U64 \<lparr>r_bytes = drop 4 bytes_unknown_second, order = Some LittleEndian, pos = 28\<rparr> =
     (Inr 2, \<lparr>r_bytes = drop 12 bytes_unknown_second, order = Some LittleEndian, pos = 36\<rparr>) \<and>
   capInRange 2 \<and> unknown_tag 99 \<and>
   shouldExpand (pol (parserAt bytes_unknown_second (expandPolicy ''x''))) ''x'' \<and>
   \<not> shouldExpand (pol (parserAt bytes_unknown_second defaultPolicy)) ''x'' \<and>
   readArray (parserAt bytes_unknown_second defaultPolicy) ''x'' =
     (Inl (BadScalarTag 99),
      (parserAt bytes_unknown_second defaultPolicy)
        \<lparr>scn := \<lparr>r_bytes = [7], order = Some LittleEndian, pos = 61\<rparr>\<rparr>) \<and>
   readArray (parserAt bytes_unknown_second (expandPolicy ''x'')) ''x'' =
     (Inl (BadScalarTag 99),
      (parserAt bytes_unknown_second (expandPolicy ''x''))
        \<lparr>scn := \<lparr>r_bytes = [7], order = Some LittleEndian, pos = 61\<rparr>\<rparr>)"
proof -
  note d1 = ex_second_header [of defaultPolicy, THEN conjunct1]
  note d2 = ex_second_header [of defaultPolicy, THEN conjunct2]
  note e1 = ex_second_header [of "expandPolicy ''x''", THEN conjunct1]
  note e2 = ex_second_header [of "expandPolicy ''x''", THEN conjunct2]
  note a = unknown_tag_aborts_nonempty_array [OF d1 d2, THEN conjunct1, rule_format, OF conjI,
      OF ex_second_reaches]
  note b = unknown_tag_aborts_nonempty_array [OF e1 e2, THEN conjunct1, rule_format, OF conjI,
      OF ex_second_reaches]
  from ex_second_cap have c: "capInRange 2" by simp
  from a have 1: "readArray (parserAt bytes_unknown_second defaultPolicy) ''x'' =
     (Inl (BadScalarTag 99),
      (parserAt bytes_unknown_second defaultPolicy)
        \<lparr>scn := \<lparr>r_bytes = [7], order = Some LittleEndian, pos = 61\<rparr>\<rparr>)"
    using c by simp
  from b have 2: "readArray (parserAt bytes_unknown_second (expandPolicy ''x'')) ''x'' =
     (Inl (BadScalarTag 99),
      (parserAt bytes_unknown_second (expandPolicy ''x''))
        \<lparr>scn := \<lparr>r_bytes = [7], order = Some LittleEndian, pos = 61\<rparr>\<rparr>)"
    using c by simp
  from 1 2 ex_second_header [of defaultPolicy] ex_second_cap [of bytes_unknown_second]
    ex_second_second_element
  show ?thesis by simp
qed

text \<open>
  Claim C3.  After the array header (element type \<open>et\<close>, count \<open>n\<close>) the decision of
  \<open>readArray\<close> depends on the key and the two expand rules only: (a) a key that is an
  expanded key is expanded; (b) otherwise a key that some expand prefix is a prefix of is
  expanded; (c) otherwise the elements are skipped and a placeholder is produced.  An
  expanded array that decodes is a sequence of \<open>n\<close> entries, a skipped one the
  placeholder with count \<open>n\<close>, for every \<open>n\<close>.  The size threshold \<open>maxArray\<close>
  takes no part: changing it changes neither the result nor the scanner.
\<close>

theorem expand_decision_precedence:
  assumes "U32 (scn p) = (Inr et, s1)" and "U64 s1 = (Inr n, s2)"
  shows
   "(expandArrays (pol p) key = Some True \<or>
     (expandArrays (pol p) key \<noteq> Some True \<and>
      (\<exists>pre \<in> set (expandPrefixes (pol p)). prefix pre key)) \<longrightarrow>
       readArray p key =
         (case readExpandedArray (p\<lparr>scn := s2\<rparr>) et n (elemNameOf et) of
            (Inl e, p3) \<Rightarrow> (Inl e, p3)
          | (Inr (result, lbl), p3) \<Rightarrow> (Inr (result, lbl, False), p3)) \<and>
       (\<forall>v lbl om p'. readArray p key = (Inr (v, lbl, om), p') \<longrightarrow>
          (\<exists>xs. v = VSlice xs \<and> length xs = unat n))) \<and>
    (expandArrays (pol p) key \<noteq> Some True \<and>
     (\<forall>pre \<in> set (expandPrefixes (pol p)). \<not> prefix pre key) \<longrightarrow>
       readArray p key =
         (case bulkSkipArrayElements (p\<lparr>scn := s2\<rparr>) et n of
            (Inl e, p3) \<Rightarrow> (Inl e, p3)
          | (Inr _, p3) \<Rightarrow>
              (Inr (VPlaceholder ''array'' n (elemNameOf et),
                    ''array['' @ elemNameOf et @ '']'', False), p3)) \<and>
       (\<forall>v lbl om p'. readArray p key = (Inr (v, lbl, om), p') \<longrightarrow>
          v = VPlaceholder ''array'' n (elemNameOf et))) \<and>
    (\<forall>m. readArray (setMaxArray m p) key = map_prod id (setMaxArray m) (readArray p key))"
proof (intro conjI impI allI)
  assume "expandArrays (pol p) key = Some True \<or>
     (expandArrays (pol p) key \<noteq> Some True \<and>
      (\<exists>pre \<in> set (expandPrefixes (pol p)). prefix pre key))"
  then have yes: "shouldExpand (pol p) key" by (auto simp: shouldExpand_iff)
  note ra = readArray_expand [OF yes assms, folded elemNameOf_def]
  show "readArray p key =
         (case readExpandedArray (p\<lparr>scn := s2\<rparr>) et n (elemNameOf et) of
            (Inl e, p3) \<Rightarrow> (Inl e, p3)
          | (Inr (result, lbl), p3) \<Rightarrow> (Inr (result, lbl, False), p3))"
    by (rule ra)
  fix v lbl om p'
  assume "readArray p key = (Inr (v, lbl, om), p')"
  then show "\<exists>xs. v = VSlice xs \<and> length xs = unat n"
    by (auto simp: ra split: prod.splits sum.splits dest: readExpandedArray_shape)
next
  assume "expandArrays (pol p) key \<noteq> Some True \<and>
     (\<forall>pre \<in> set (expandPrefixes (pol p)). \<not> prefix pre key)"
  then have no: "\<not> shouldExpand (pol p) key" by (simp add: shouldExpand_iff)
  note ra = readArray_skip [OF no assms, folded elemNameOf_def]
  show "readArray p key =
         (case bulkSkipArrayElements (p\<lparr>scn := s2\<rparr>) et n of
            (Inl e, p3) \<Rightarrow> (Inl e, p3)
          | (Inr _, p3) \<Rightarrow>
              (Inr (VPlaceholder ''array'' n (elemNameOf et),
                    ''array['' @ elemNameOf et @ '']'', False), p3))"
    by (rule ra)
  fix v lbl om p'
  assume "readArray p key = (Inr (v, lbl, om), p')"
  then show "v = VPlaceholder ''array'' n (elemNameOf et)"
    by (auto simp: ra split: prod.splits sum.splits)
next
  fix m
  show "readArray (setMaxArray m p) key = map_prod id (setMaxArray m) (readArray p key)"
    by (rule readArray_setMaxArray)
qed

theorem expand_decision_precedence_witness:
  "U32 (scn (parserAt bytes_u8x2 (expandPolicy ''x''))) =
     (Inr 0, \<lparr>r_bytes = [2, 0, 0, 0, 0, 0, 0, 0,  5, 6, 9], order = Some LittleEndian, pos = 28\<rparr>) \<and>
   U64 \<lparr>r_bytes = [2, 0, 0, 0, 0, 0, 0, 0,  5, 6, 9], order = Some LittleEndian, pos = 28\<rparr> =
     (Inr 2, \<lparr>r_bytes = [5, 6, 9], order = Some LittleEndian, pos = 36\<rparr>) \<and>
   expandArrays (pol (parserAt bytes_u8x2 (expandPolicy ''x''))) ''x'' = Some True \<and>
   fst (readArray (parserAt bytes_u8x2 (expandPolicy ''x'')) ''x'') =
     Inr (VSlice [VUint8 5, VUint8 6], ''array[uint8]'', False) \<and>
   (\<exists>xs. VSlice [VUint8 5, VUint8 6] = VSlice xs \<and> length xs = unat (2 :: u64)) \<and>
   expandArrays (pol (parserAt bytes_u8x2 (expandPolicy ''x''))) ''y'' \<noteq> Some True \<and>
   expandPrefixes (pol (parserAt bytes_u8x2 (expandPolicy ''x''))) = [] \<and>
   fst (readArray (parserAt bytes_u8x2 (expandPolicy ''x'')) ''y'') =
     Inr (VPlaceholder ''array'' 2 (elemNameOf 0), ''array[uint8]'', False)"
proof -
  let ?p = "parserAt bytes_u8x2 (expandPolicy ''x'')"
  note t = expand_decision_precedence [OF ex_u8_tag ex_u8_count, of "expandPolicy ''x''"]
  obtain px where x: "readArray ?p ''x'' = (Inr (VSlice [VUint8 5, VUint8 6], ''array[uint8]'', False), px)"
    using ex_x_expanded by (cases "readArray ?p ''x''") auto
  obtain py where y: "readArray ?p ''y'' = (Inr (VPlaceholder ''array'' 2 ''uint8'', ''array[uint8]'', False), py)"
    using ex_y_skipped by (cases "readArray ?p ''y''") auto
  from t [of "''x''", THEN conjunct1, rule_format, OF disjI1, OF ex_x_is_expand_key, THEN conjunct2, rule_format, OF x]
  have a: "\<exists>xs. VSlice [VUint8 5, VUint8 6] = VSlice xs \<and> length xs = unat (2 :: u64)" .
  from t [of "''y''", THEN conjunct2, THEN conjunct1, rule_format, OF ex_y_matches_no_rule, THEN conjunct2, rule_format, OF y]
  have b: "VPlaceholder ''array'' 2 ''uint8'' = VPlaceholder ''array'' 2 (elemNameOf 0)" .
  have c: "expandPrefixes (pol (parserAt bytes_u8x2 (expandPolicy ''x''))) = []"
    by (simp add: parserAt_def expandPolicy_def defaultPolicy_def)
  from a b c ex_u8_tag [of "expandPolicy ''x''"] ex_u8_count ex_x_is_expand_key ex_x_expanded ex_y_skipped ex_y_matches_no_rule show ?thesis by simp
qed

text \<open>
  Claim C4.  Let \<open>hb\<close> be a 24-byte prologue that begins with the magic \<open>GGUF\<close>.  If
  bytes 4 to 8 read as 3 in little-endian order, \<open>newParser\<close> sets the scanner's order
  to little-endian and returns version 3 and the tensor and key-value counts read from
  bytes 8 to 16 and 16 to 24 in that order; if they read as 3 in big-endian order only,
  the same with big-endian; if in neither, it fails with the unsupported-version error.
  The scanner stands behind the prologue, and every later \<open>nextKV\<close> call and scanner
  operation leaves the byte order as chosen.
\<close>

theorem header_selects_byte_order:
  assumes "length hb = 24" and "string_of_bytes (slice hb 0 4) = magicGGUF"
  shows
   "(le_uint32 (slice hb 4 8) = 3 \<longrightarrow>
       newParser (hb @ rest) fsize po =
         Inr (\<lparr>scn = \<lparr>r_bytes = rest, order = Some LittleEndian, pos = 24\<rparr>, fileSize = fsize,
                endianHint = ''LE'', kvRemain = le_uint64 (slice hb 16 24), version = 3,
                tc = le_uint64 (slice hb 8 16), kv = le_uint64 (slice hb 16 24), pol = po\<rparr>,
              \<lparr>Kind = ''header'', Version = 3, TensorCount = le_uint64 (slice hb 8 16),
                KVCount = le_uint64 (slice hb 16 24)\<rparr>)) \<and>
    (le_uint32 (slice hb 4 8) \<noteq> 3 \<and> be_uint32 (slice hb 4 8) = 3 \<longrightarrow>
       newParser (hb @ rest) fsize po =
         Inr (\<lparr>scn = \<lparr>r_bytes = rest, order = Some BigEndian, pos = 24\<rparr>, fileSize = fsize,
                endianHint = ''BE'', kvRemain = be_uint64 (slice hb 16 24), version = 3,
                tc = be_uint64 (slice hb 8 16), kv = be_uint64 (slice hb 16 24), pol = po\<rparr>,
              \<lparr>Kind = ''header'', Version = 3, TensorCount = be_uint64 (slice hb 8 16),
                KVCount = be_uint64 (slice hb 16 24)\<rparr>)) \<and>
    (le_uint32 (slice hb 4 8) \<noteq> 3 \<and> be_uint32 (slice hb 4 8) \<noteq> 3 \<longrightarrow>
       newParser (hb @ rest) fsize po =
         Inl (UnsupportedVersion (le_uint32 (slice hb 4 8)) (be_uint32 (slice hb 4 8)))) \<and>
    (\<forall>al q r q'. nextKV al q = (r, q') \<longrightarrow> order (scn q') = order (scn q)) \<and>
    (\<forall>xs s. \<forall>s' \<in> set (trace xs s). order s' = order s)"
proof (intro conjI impI allI)
  assume "le_uint32 (slice hb 4 8) = 3"
  with assms show "newParser (hb @ rest) fsize po =
         Inr (\<lparr>scn = \<lparr>r_bytes = rest, order = Some LittleEndian, pos = 24\<rparr>, fileSize = fsize,
                endianHint = ''LE'', kvRemain = le_uint64 (slice hb 16 24), version = 3,
                tc = le_uint64 (slice hb 8 16), kv = le_uint64 (slice hb 16 24), pol = po\<rparr>,
              \<lparr>Kind = ''header'', Version = 3, TensorCount = le_uint64 (slice hb 8 16),
                KVCount = le_uint64 (slice hb 16 24)\<rparr>)"
    by (rule newParser_LE)
next
  assume "le_uint32 (slice hb 4 8) \<noteq> 3 \<and> be_uint32 (slice hb 4 8) = 3"
  with assms show "newParser (hb @ rest) fsize po =
         Inr (\<lparr>scn = \<lparr>r_bytes = rest, order = Some BigEndian, pos = 24\<rparr>, fileSize = fsize,
                endianHint = ''BE'', kvRemain = be_uint64 (slice hb 16 24), version = 3,
                tc = be_uint64 (slice hb 8 16), kv = be_uint64 (slice hb 16 24), pol = po\<rparr>,
              \<lparr>Kind = ''header'', Version = 3, TensorCount = be_uint64 (slice hb 8 16),
                KVCount = be_uint64 (slice hb 16 24)\<rparr>)"
    by (simp add: newParser_BE)
next
  assume "le_uint32 (slice hb 4 8) \<noteq> 3 \<and> be_uint32 (slice hb 4 8) \<noteq> 3"
  with assms show "newParser (hb @ rest) fsize po =
         Inl (UnsupportedVersion (le_uint32 (slice hb 4 8)) (be_uint32 (slice hb 4 8)))"
    by (simp add: newParser_unsupported)
next
  fix al q r q' assume "nextKV al q = (r, q')"
  then show "order (scn q') = order (scn q)" by (rule nextKV_order)
next
  fix xs s
  show "\<forall>s' \<in> set (trace xs s). order s' = order s" by (rule trace_order)
qed

theorem header_selects_byte_order_witness:
  "length prologue_be = 24 \<and> string_of_bytes (slice prologue_be 0 4) = magicGGUF \<and>
   le_uint32 (slice prologue_be 4 8) \<noteq> 3 \<and> be_uint32 (slice prologue_be 4 8) = 3 \<and>
   newParser (prologue_be @ [9]) 25 defaultPolicy =
     Inr (\<lparr>scn = \<lparr>r_bytes = [9], order = Some BigEndian, pos = 24\<rparr>, fileSize = 25,
            endianHint = ''BE'', kvRemain = 2, version = 3, tc = 1, kv = 2, pol = defaultPolicy\<rparr>,
          \<lparr>Kind = ''header'', Version = 3, TensorCount = 1, KVCount = 2\<rparr>)"
proof -
  note t = header_selects_byte_order [OF ex_prologue_length ex_prologue_magic, of "[9]" 25 defaultPolicy,
      THEN conjunct2, THEN conjunct1, rule_format, OF ex_prologue_version]
  from t ex_prologue_length ex_prologue_magic ex_prologue_version ex_prologue_counts show ?thesis by simp
qed

text \<open>
  Claim C5.  When \<open>readExpandedArray\<close> returns a value for an array whose element
  type is array, the value is a slice with one entry per element, and every entry is a
  nested placeholder carrying the count and the type name of the nested header read at
  that element (\<open>nested_headers\<close> lists those headers in order): no entry is a slice
  or a decoded scalar, whatever the nested element type is, array included.
\<close>

theorem expand_is_one_level_deep:
  assumes "readExpandedArray p tArray n nm = (Inr (v, lbl), p')"
  shows "v = VSlice (map nested_placeholder (nested_headers p (unat n))) \<and>
         length (nested_headers p (unat n)) = unat n \<and>
         (\<forall>h \<in> set (nested_headers p (unat n)). unat (fst h) < length typeNames) \<and>
         (\<forall>xs. v = VSlice xs \<longrightarrow>
            (\<forall>x \<in> set xs. \<exists>c t. x = VPlaceholder ''nested_array'' c t \<and> t \<in> set typeNames)) \<and>
         lbl = ''array['' @ nm @ '']''"
proof -
  from assms obtain xs where
    l: "readExpanded_loop p tArray (unat n) [] = (Inr xs, p')" and v: "v = VSlice xs"
    and lbl: "lbl = ''array['' @ nm @ '']''"
    by (auto simp: readExpandedArray_def split: prod.splits sum.splits if_splits)
  from expand_loop_nested [OF l] have
    xs: "xs = map nested_placeholder (nested_headers p (unat n))"
    and len: "length (nested_headers p (unat n)) = unat n"
    and known: "\<forall>h \<in> set (nested_headers p (unat n)). unat (fst h) < length typeNames"
    by simp_all
  have "\<exists>c t. x = VPlaceholder ''nested_array'' c t \<and> t \<in> set typeNames" if "x \<in> set xs" for x
  proof -
    from that xs obtain h where "h \<in> set (nested_headers p (unat n))" "x = nested_placeholder h"
      by auto
    with known show ?thesis by (auto simp: nested_placeholder_def)
  qed
  with v xs len known lbl show ?thesis by blast
qed

theorem expand_is_one_level_deep_witness:
  "fst (readExpandedArray (parserAt bytes_nested2 defaultPolicy) tArray 2 ''array'') =
    Inr (VSlice [VPlaceholder ''nested_array'' 1 ''array'', VPlaceholder ''nested_array'' 0 ''uint32''],
         ''array[array]'') \<and>
   VSlice [VPlaceholder ''nested_array'' 1 ''array'', VPlaceholder ''nested_array'' 0 ''uint32''] =
     VSlice (map nested_placeholder (nested_headers (parserAt bytes_nested2 defaultPolicy) (unat (2 :: u64)))) \<and>
   nested_headers (parserAt bytes_nested2 defaultPolicy) (unat (2 :: u64)) = [(9, 1), (4, 0)]"
proof -
  obtain p' where e: "readExpandedArray (parserAt bytes_nested2 defaultPolicy) tArray 2 ''array'' =
     (Inr (VSlice [VPlaceholder ''nested_array'' 1 ''array'', VPlaceholder ''nested_array'' 0 ''uint32''],
         ''array[array]''), p')"
    using ex_nested_expanded by (cases "readExpandedArray (parserAt bytes_nested2 defaultPolicy) tArray 2 ''array''") auto
  from expand_is_one_level_deep [OF e] ex_nested_expanded ex_nested_headers show ?thesis by blast
qed

text \<open>
  Claim C6, as stated, fails above the allocation limit: with the cap at its largest
  value and a declared length of \<open>2 ^ 48 + 1\<close>, which is under the cap, no payload byte
  is read or returned, although two are there; \<open>make\<close> panics.
\<close>

theorem GGUFString_length_cap_counterexample:
  "U64 \<lparr>r_bytes = [1, 0, 0, 0, 0, 0, 1, 0, 5, 6], order = Some LittleEndian, pos = 0\<rparr> =
     (Inr 281474976710657, \<lparr>r_bytes = [5, 6], order = Some LittleEndian, pos = 8\<rparr>) \<and>
   (281474976710657 :: u64) \<le> 18446744073709551615 \<and>
   GGUFString \<lparr>r_bytes = [1, 0, 0, 0, 0, 0, 1, 0, 5, 6], order = Some LittleEndian, pos = 0\<rparr>
       18446744073709551615 =
     (Inl (Panic ''makeslice: len out of range''),
      \<lparr>r_bytes = [5, 6], order = Some LittleEndian, pos = 8\<rparr>)"
  by (simp add: GGUFString_def b_def U64_def readExact_def maxAlloc_def Uint64_def le_uint64_def)

text \<open>
  Claim C6, amended.  \<open>GGUFString s mx\<close> first reads the 8-byte unsigned length \<open>L\<close>
  in the scanner's byte order; a failure of that read is the result.  If \<open>L > mx\<close> the
  result is the string-too-large error and the scanner is the one the length read left:
  position advanced by exactly 8, no payload byte consumed.  Otherwise, if \<open>L\<close> is at
  most the allocation limit \<open>2 ^ 48\<close>, it reads exactly \<open>L\<close> bytes: when they are
  there it returns them and leaves the scanner \<open>L\<close> bytes further, and when fewer are
  left the read fails short.  Every string it returns has exactly \<open>L\<close> bytes, the
  first \<open>L\<close> after the length, and \<open>L\<close> is within the cap and the limit.  A cap of at
  most \<open>2 ^ 48\<close>, as the default one is, keeps every \<open>L\<close> it admits within the limit.
\<close>

theorem GGUFString_length_cap:
  "(\<forall>e s1. U64 s = (Inl e, s1) \<longrightarrow> GGUFString s mx = (Inl e, s1)) \<and>
   (\<forall>L s1. U64 s = (Inr L, s1) \<longrightarrow>
      (\<exists>bo. order s = Some bo \<and> L = Uint64 bo (take 8 (r_bytes s))) \<and>
      pos s1 = pos s + 8 \<and> r_bytes s1 = drop 8 (r_bytes s) \<and>
      (mx < L \<longrightarrow> GGUFString s mx = (Inl (StringTooLarge L mx), s1)) \<and>
      (L \<le> mx \<and> uint L \<le> maxAlloc \<and> unat L \<le> length (r_bytes s1) \<longrightarrow>
         GGUFString s mx = (Inr (string_of_bytes (take (unat L) (r_bytes s1))),
                            s1\<lparr>r_bytes := drop (unat L) (r_bytes s1), pos := pos s1 + L\<rparr>)) \<and>
      (L \<le> mx \<and> uint L \<le> maxAlloc \<and> length (r_bytes s1) < unat L \<longrightarrow>
         GGUFString s mx = (Inl (if r_bytes s1 = [] then EOF else ErrUnexpectedEOF),
                            s1\<lparr>r_bytes := []\<rparr>)) \<and>
      (\<forall>str s2. GGUFString s mx = (Inr str, s2) \<longrightarrow>
         L \<le> mx \<and> uint L \<le> maxAlloc \<and> length str = unat L \<and>
         str = string_of_bytes (take (unat L) (r_bytes s1)) \<and>
         s2 = s1\<lparr>r_bytes := drop (unat L) (r_bytes s1), pos := pos s1 + L\<rparr>) \<and>
      (L \<le> mx \<and> uint mx \<le> maxAlloc \<longrightarrow> uint L \<le> maxAlloc)) \<and>
   uint (maxString defaultPolicy) \<le> maxAlloc"
proof (intro conjI allI impI)
  fix e s1 assume "U64 s = (Inl e, s1)"
  then show "GGUFString s mx = (Inl e, s1)" by (simp add: GGUFString_def)
next
  fix L s1 assume u: "U64 s = (Inr L, s1)"
  from U64_Inr [OF u] show "\<exists>bo. order s = Some bo \<and> L = Uint64 bo (take 8 (r_bytes s))"
    and "pos s1 = pos s + 8" and "r_bytes s1 = drop 8 (r_bytes s)" by simp_all
  { assume "mx < L"
    with u show "GGUFString s mx = (Inl (StringTooLarge L mx), s1)"
      by (rule GGUFString_too_large) }
  { assume "L \<le> mx \<and> uint L \<le> maxAlloc \<and> unat L \<le> length (r_bytes s1)"
    with u show "GGUFString s mx = (Inr (string_of_bytes (take (unat L) (r_bytes s1))),
                            s1\<lparr>r_bytes := drop (unat L) (r_bytes s1), pos := pos s1 + L\<rparr>)"
      by (simp add: GGUFString_reads) }
  { assume "L \<le> mx \<and> uint L \<le> maxAlloc \<and> length (r_bytes s1) < unat L"
    with u show "GGUFString s mx = (Inl (if r_bytes s1 = [] then EOF else ErrUnexpectedEOF),
                            s1\<lparr>r_bytes := []\<rparr>)"
      by (simp add: GGUFString_short) }
  { fix str s2 assume g: "GGUFString s mx = (Inr str, s2)"
    from GGUFString_Inr [OF u g] show "L \<le> mx" and "uint L \<le> maxAlloc"
      and "length str = unat L"
      and "str = string_of_bytes (take (unat L) (r_bytes s1))"
      and "s2 = s1\<lparr>r_bytes := drop (unat L) (r_bytes s1), pos := pos s1 + L\<rparr>" by blast+ }
  { assume "L \<le> mx \<and> uint mx \<le> maxAlloc"
    then show "uint L \<le> maxAlloc" by (auto simp: word_le_def) }
next
  show "uint (maxString defaultPolicy) \<le> maxAlloc"
    by (simp add: defaultPolicy_def maxAlloc_def)
qed

theorem GGUFString_length_cap_witness:
  "U64 \<lparr>r_bytes = [2, 0, 0, 0, 0, 0, 0, 0, 104, 105, 7], order = Some LittleEndian, pos = 0\<rparr>
     = (Inr 2, \<lparr>r_bytes = [104, 105, 7], order = Some LittleEndian, pos = 8\<rparr>) \<and>
   (1 :: u64) < 2 \<and>
   GGUFString \<lparr>r_bytes = [2, 0, 0, 0, 0, 0, 0, 0, 104, 105, 7], order = Some LittleEndian, pos = 0\<rparr> 1
     = (Inl (StringTooLarge 2 1), \<lparr>r_bytes = [104, 105, 7], order = Some LittleEndian, pos = 8\<rparr>) \<and>
   (2 :: u64) \<le> 4 \<and> uint (2 :: u64) \<le> maxAlloc \<and> unat (2 :: u64) \<le> length [104, 105, 7 :: byte] \<and>
   GGUFString \<lparr>r_bytes = [2, 0, 0, 0, 0, 0, 0, 0, 104, 105, 7], order = Some LittleEndian, pos = 0\<rparr> 4
     = (Inr ''hi'', \<lparr>r_bytes = [7], order = Some LittleEndian, pos = 10\<rparr>)"
proof -
  let ?s = "\<lparr>r_bytes = [2, 0, 0, 0, 0, 0, 0, 0, 104, 105, 7 :: byte], order = Some LittleEndian, pos = 0\<rparr>"
  let ?s1 = "\<lparr>r_bytes = [104, 105, 7 :: byte], order = Some LittleEndian, pos = 8\<rparr>"
  have u: "U64 ?s = (Inr 2, ?s1)"
    by (simp add: U64_def readExact_def maxAlloc_def Uint64_def le_uint64_def)
  have str: "string_of_bytes [104, 105] = ''hi''" by code_simp
  note t1 = GGUFString_length_cap [of ?s 1, THEN conjunct2, THEN conjunct1, rule_format, OF u]
  note t4 = GGUFString_length_cap [of ?s 4, THEN conjunct2, THEN conjunct1, rule_format, OF u]
  have c1: "(1 :: u64) < 2" by simp
  have c4: "(2 :: u64) \<le> 4 \<and> uint (2 :: u64) \<le> maxAlloc \<and> unat (2 :: u64) \<le> length (r_bytes ?s1)"
    by (simp add: maxAlloc_def)
  have a: "GGUFString ?s 1 = (Inl (StringTooLarge 2 1), ?s1)"
    using t1 [THEN conjunct2, THEN conjunct2, THEN conjunct2, THEN conjunct1, rule_format, OF c1] .
  have b: "GGUFString ?s 4 = (Inr ''hi'', \<lparr>r_bytes = [7], order = Some LittleEndian, pos = 10\<rparr>)"
    using t4 [THEN conjunct2, THEN conjunct2, THEN conjunct2, THEN conjunct2, THEN conjunct1,
        rule_format, OF c4]
    by (simp add: str)
  from u a b c4 show ?thesis by simp
qed

text \<open>
  Claim C7.  A call of \<open>nextKV\<close> that produces a record lowers the remaining count by
  exactly one; \<open>nextKV\<close> takes no filter, and in the loop of \<open>main\<close> the error and the
  parser at the end (its remaining count included) are the same for every key filter.
  With the remaining count at 0, \<open>nextKV\<close> reports no-more and returns the parser as it
  was, scanner included.  So in any number of calls in a row at most as many records are
  produced as the remaining count says, the loop of \<open>main\<close> encodes at most that many,
  and \<open>newParser\<close> starts the count at the header's key-value count.
\<close>

theorem record_count_bookkeeping:
  "(\<forall>ev p'. nextKV al p = (Inr (ev, True), p') \<longrightarrow>
      kvRemain p \<noteq> 0 \<and> kvRemain p' = kvRemain p - 1 \<and>
      unat (kvRemain p') + 1 = unat (kvRemain p)) \<and>
   (kvRemain p = 0 \<longrightarrow> nextKV al p = (Inr (kvEvent_zero, False), p)) \<and>
   length (filter produced (run_calls al p k)) \<le> unat (kvRemain p) \<and>
   (\<forall>mk1 mk2 out1 out2.
      fst (mainLoop al mk1 p out1) = fst (mainLoop al mk2 p out2) \<and>
      snd (snd (mainLoop al mk1 p out1)) = snd (snd (mainLoop al mk2 p out2))) \<and>
   (\<forall>mk. length (fst (snd (mainLoop al mk p []))) \<le> unat (kvRemain p)) \<and>
   (\<forall>r fsize po q h. newParser r fsize po = Inr (q, h) \<longrightarrow> kvRemain q = KVCount h)"
proof (intro conjI allI impI)
  fix ev p' assume n: "nextKV al p = (Inr (ev, True), p')"
  from nextKV_produced [OF n] show "kvRemain p \<noteq> 0" and "kvRemain p' = kvRemain p - 1"
    and "unat (kvRemain p') + 1 = unat (kvRemain p)" by blast+
next
  assume "kvRemain p = 0"
  then show "nextKV al p = (Inr (kvEvent_zero, False), p)" by (rule nextKV_none)
next
  show "length (filter produced (run_calls al p k)) \<le> unat (kvRemain p)"
    by (rule run_calls_bound)
next
  fix mk1 mk2 :: "string \<Rightarrow> bool" and out1 out2 :: "kvEvent list"
  show "fst (mainLoop al mk1 p out1) = fst (mainLoop al mk2 p out2)"
    and "snd (snd (mainLoop al mk1 p out1)) = snd (snd (mainLoop al mk2 p out2))"
    using mainLoop_filter_eq [of al mk1 p out1 mk2 out2] by blast+
next
  fix mk :: "string \<Rightarrow> bool"
  obtain e out' p' where m: "mainLoop al mk p [] = (e, out', p')"
    by (cases "mainLoop al mk p []") auto
  from mainLoop_bound [OF m] m show "length (fst (snd (mainLoop al mk p []))) \<le> unat (kvRemain p)"
    by simp
next
  fix r fsize po q h assume "newParser r fsize po = Inr (q, h)"
  then show "kvRemain q = KVCount h" by (rule newParser_kvRemain)
qed

theorem record_count_bookkeeping_witness:
  "fst (nextKV False (parserAt scenario_kv defaultPolicy)) =
     Inr (\<lparr>Key = ''a'', Type = ''uint32'', Value = Some (VUint32 42)\<rparr>, True) \<and>
   unat (kvRemain (snd (nextKV False (parserAt scenario_kv defaultPolicy)))) + 1 =
     unat (kvRemain (parserAt scenario_kv defaultPolicy)) \<and>
   kvRemain (snd (nextKV False (parserAt scenario_kv defaultPolicy))) = 0 \<and>
   nextKV False (snd (nextKV False (parserAt scenario_kv defaultPolicy))) =
     (Inr (kvEvent_zero, False), snd (nextKV False (parserAt scenario_kv defaultPolicy)))"
proof -
  let ?p = "parserAt scenario_kv defaultPolicy"
  obtain p' where n: "nextKV False ?p =
      (Inr (\<lparr>Key = ''a'', Type = ''uint32'', Value = Some (VUint32 42)\<rparr>, True), p')"
    using ex_scenario_record by (cases "nextKV False ?p") auto
  from record_count_bookkeeping [of False ?p 0, THEN conjunct1, rule_format, OF n]
  have a: "unat (kvRemain p') + 1 = unat (kvRemain ?p)" and b: "kvRemain p' = kvRemain ?p - 1"
    by blast+
  from b have z: "kvRemain p' = 0" by (simp add: parserAt_def)
  from record_count_bookkeeping [of False p' 0, THEN conjunct2, THEN conjunct1, rule_format, OF z]
  have c: "nextKV False p' = (Inr (kvEvent_zero, False), p')" .
  from n a z c ex_scenario_record show ?thesis by simp
qed

text \<open>
  Claim C8.  On the input \<open>scenario\<close> (the prologue 47 47 55 46 03 00 00 00 01 00 .. 01 00 ..,
  then the key \<open>a\<close> behind its 8-byte length, the tag 4 and the value 42, all
  little-endian), with the alignment mode off and a string cap of at least 1,
  \<open>newParser\<close> returns the header with version 3, tensor count 1 and key-value count 1
  and a little-endian scanner; the first \<open>nextKV\<close> returns the record with key \<open>a\<close>,
  type \<open>uint32\<close> and value 42 and consumes the input to its end; the next call
  reports no-more; and the loop of \<open>main\<close> encodes exactly that one record.
\<close>

theorem scenario_decodes_to_one_record:
  assumes "1 \<le> maxString po"
  shows "\<exists>p0 p1.
     newParser scenario fsize po =
       Inr (p0, \<lparr>Kind = ''header'', Version = 3, TensorCount = 1, KVCount = 1\<rparr>) \<and>
     order (scn p0) = Some LittleEndian \<and>
     nextKV False p0 =
       (Inr (\<lparr>Key = ''a'', Type = ''uint32'', Value = Some (VUint32 42)\<rparr>, True), p1) \<and>
     r_bytes (scn p1) = [] \<and>
     nextKV False p1 = (Inr (kvEvent_zero, False), p1) \<and>
     mainLoop False (\<lambda>k. True) p0 [] =
       (None, [\<lparr>Key = ''a'', Type = ''uint32'', Value = Some (VUint32 42)\<rparr>], p1)"
proof -
  let ?p0 = "\<lparr>scn = \<lparr>r_bytes = scenario_kv, order = Some LittleEndian, pos = 24\<rparr>,
     fileSize = fsize, endianHint = ''LE'', kvRemain = 1, version = 3, tc = 1, kv = 1, pol = po\<rparr>"
  let ?p1 = "\<lparr>scn = \<lparr>r_bytes = [], order = Some LittleEndian, pos = 41\<rparr>,
     fileSize = fsize, endianHint = ''LE'', kvRemain = 0, version = 3, tc = 1, kv = 1, pol = po\<rparr>"
  let ?rec = "\<lparr>Key = ''a'', Type = ''uint32'', Value = Some (VUint32 42)\<rparr>"
  have h: "newParser scenario fsize po =
       Inr (?p0, \<lparr>Kind = ''header'', Version = 3, TensorCount = 1, KVCount = 1\<rparr>)"
    by (rule scenario_header)
  have n1: "nextKV False ?p0 = (Inr (?rec, True), ?p1)"
    using scenario_key [OF assms]
    by (simp add: nextKV_def scenario_tag scenario_value)
  have n2: "nextKV False ?p1 = (Inr (kvEvent_zero, False), ?p1)"
    by (simp add: nextKV_def)
  have m2: "mainLoop False (\<lambda>k. True) ?p1 [?rec] = (None, [?rec], ?p1)"
    by (subst mainLoop.simps, subst n2) (simp del: mainLoop.simps)
  have m1: "mainLoop False (\<lambda>k. True) ?p0 [] = (None, [?rec], ?p1)"
    by (subst mainLoop.simps, subst n1) (simp del: mainLoop.simps add: m2)
  from h n1 n2 m1 show ?thesis by (intro exI [of _ ?p0] exI [of _ ?p1]) simp
qed

theorem scenario_decodes_to_one_record_witness:
  "1 \<le> maxString defaultPolicy \<and>
   (\<exists>p0 p1.
     newParser scenario 41 defaultPolicy =
       Inr (p0, \<lparr>Kind = ''header'', Version = 3, TensorCount = 1, KVCount = 1\<rparr>) \<and>
     order (scn p0) = Some LittleEndian \<and>
     nextKV False p0 =
       (Inr (\<lparr>Key = ''a'', Type = ''uint32'', Value = Some (VUint32 42)\<rparr>, True), p1) \<and>
     r_bytes (scn p1) = [] \<and>
     nextKV False p1 = (Inr (kvEvent_zero, False), p1) \<and>
     mainLoop False (\<lambda>k. True) p0 [] =
       (None, [\<lparr>Key = ''a'', Type = ''uint32'', Value = Some (VUint32 42)\<rparr>], p1))"
  using scenario_decodes_to_one_record [OF ex_default_cap, of 41] ex_default_cap by blast

text \<open>
  Claim C9.  A successful primitive read of declared width \<open>w\<close> (1, 2, 4 or 8 bytes)
  consumes exactly \<open>w\<close> bytes and adds \<open>w\<close> to the position counter, on every
  scanner.  On every scanner \<open>s\<close> that is in range, whatever its byte order, and along
  every sequence of operations run on it (exact reads of any length, the typed
  readers, length-prefixed strings, alignment), the position counter never decreases,
  every scanner on the way is in range again, and each successful primitive read
  advances the position by exactly its width as a number.  A call of \<open>nextKV\<close> on a
  parser whose scanner is in range leaves it in range and at the same or a later
  position.  Setting the byte order does not change being in range; the scanner
  \<open>newScanner\<close> makes over a source shorter than \<open>2 ^ 64\<close> bytes is in range, and so
  is the scanner of the parser \<open>newParser\<close> returns on it.
\<close>

theorem scanner_position_monotone:
  "(\<forall>q s s'. read_prim q s = (True, s') \<longrightarrow>
      pos s' = pos s + word_of_nat (width q) \<and> r_bytes s' = drop (width q) (r_bytes s)) \<and>
   (in_range s \<longrightarrow>
      sorted (map (\<lambda>s. unat (pos s)) (trace ops s)) \<and>
      (\<forall>s' \<in> set (trace ops s). in_range s' \<and>
         (\<forall>q s''. read_prim q s' = (True, s'') \<longrightarrow>
            unat (pos s'') = unat (pos s') + width q))) \<and>
   (\<forall>al p r p'. in_range (scn p) \<and> nextKV al p = (r, p') \<longrightarrow>
      in_range (scn p') \<and> unat (pos (scn p)) \<le> unat (pos (scn p'))) \<and>
   (\<forall>bo. in_range (s\<lparr>order := bo\<rparr>) = in_range s) \<and>
   (length bs < 2 ^ 64 \<longrightarrow>
      in_range (newScanner bs) \<and>
      (\<forall>fsize po p h. newParser bs fsize po = Inr (p, h) \<longrightarrow> in_range (scn p)))"
proof (intro conjI allI impI ballI)
  fix q s s'
  assume "read_prim q s = (True, s')"
  then obtain rd where "readExact s (int (width q)) = (Inr rd, s')"
    by (auto dest: read_prim_ok)
  from readExact_Inr [OF this] show "r_bytes s' = drop (width q) (r_bytes s)" by simp
next
  fix q s s'
  assume "read_prim q s = (True, s')"
  then show "pos s' = pos s + word_of_nat (width q)" by (rule read_prim_word)
next
  assume "in_range s"
  then show "sorted (map (\<lambda>s. unat (pos s)) (trace ops s))" by (rule trace_sorted)
next
  fix s'
  assume "in_range s" and "s' \<in> set (trace ops s)"
  then show "in_range s'" using trace_bounds [of s ops] by blast
next
  fix s' q s''
  assume "in_range s" and "s' \<in> set (trace ops s)" and r: "read_prim q s' = (True, s'')"
  then have "in_range s'" using trace_bounds [of s ops] by blast
  from read_prim_exact [OF this r] show "unat (pos s'') = unat (pos s') + width q" by simp
next
  fix al p r p'
  assume "in_range (scn p) \<and> nextKV al p = (r, p')"
  then have "forward (scn p) (scn p')" by (auto dest: nextKV_forward)
  then show "in_range (scn p')" and "unat (pos (scn p)) \<le> unat (pos (scn p'))"
    by (simp_all add: forward_def)
next
  fix bo
  show "in_range (s\<lparr>order := bo\<rparr>) = in_range s" by (rule in_range_order)
next
  assume "length bs < 2 ^ 64"
  then show "in_range (newScanner bs)" by (rule newScanner_in_range)
next
  fix fsize po p h
  assume "length bs < 2 ^ 64" and "newParser bs fsize po = Inr (p, h)"
  then show "in_range (scn p)" by (rule newParser_in_range)
qed

theorem scanner_position_monotone_witness:
  "in_range \<lparr>r_bytes = [42, 0, 0, 0, 9], order = Some LittleEndian, pos = 24\<rparr> \<and>
   \<lparr>r_bytes = [42, 0, 0, 0, 9], order = Some LittleEndian, pos = 24\<rparr>
     \<in> set (trace [OpPrim PU32, OpPrim PU8]
          \<lparr>r_bytes = [42, 0, 0, 0, 9], order = Some LittleEndian, pos = 24\<rparr>) \<and>
   read_prim PU32 \<lparr>r_bytes = [42, 0, 0, 0, 9], order = Some LittleEndian, pos = 24\<rparr> =
     (True, \<lparr>r_bytes = [9], order = Some LittleEndian, pos = 28\<rparr>) \<and>
   sorted (map (\<lambda>s. unat (pos s)) (trace [OpPrim PU32, OpPrim PU8]
     \<lparr>r_bytes = [42, 0, 0, 0, 9], order = Some LittleEndian, pos = 24\<rparr>)) \<and>
   unat (pos \<lparr>r_bytes = [9 :: byte], order = Some LittleEndian, pos = 28\<rparr>) =
     unat (pos \<lparr>r_bytes = [42, 0, 0, 0, 9 :: byte], order = Some LittleEndian, pos = 24\<rparr>)
       + width PU32"
proof -
  let ?s = "\<lparr>r_bytes = [42, 0, 0, 0, 9 :: byte], order = Some LittleEndian, pos = 24\<rparr>"
  have ir: "in_range ?s" by (simp add: in_range_def)
  have mem: "?s \<in> set (trace [OpPrim PU32, OpPrim PU8] ?s)" by simp
  have ok: "read_prim PU32 ?s = (True, \<lparr>r_bytes = [9], order = Some LittleEndian, pos = 28\<rparr>)"
    by (simp add: outcome_def U32_def readExact_def maxAlloc_def Uint32_def le_uint32_def)
  note t = scanner_position_monotone [of ?s "[OpPrim PU32, OpPrim PU8]" "[]",
      THEN conjunct2, THEN conjunct1, rule_format, OF ir]
  from t [THEN conjunct1] t [THEN conjunct2, rule_format, OF mem, THEN conjunct2, rule_format, OF ok]
    ir mem ok
  show ?thesis by simp
qed

text \<open>
  Claim C10.  A call of \<open>nextKV\<close> that returns an error leaves the remaining count as
  it was: the parser differs from the one before the call in its scanner only.  The
  count changes in no call but one that returns a record.
\<close>

theorem failed_entry_keeps_count:
  "(\<forall>e p'. nextKV al p = (Inl e, p') \<longrightarrow> kvRemain p' = kvRemain p \<and> frame p p') \<and>
   (\<forall>r p'. nextKV al p = (r, p') \<and> kvRemain p' \<noteq> kvRemain p \<longrightarrow>
      (\<exists>ev. r = Inr (ev, True)) \<and> kvRemain p' = kvRemain p - 1)"
proof (intro conjI allI impI)
  fix e p' assume n: "nextKV al p = (Inl e, p')"
  from nextKV_error [OF n] show "frame p p'" .
  then show "kvRemain p' = kvRemain p" by (simp add: frame_fields)
next
  fix r p' assume h: "nextKV al p = (r, p') \<and> kvRemain p' \<noteq> kvRemain p"
  then have n: "nextKV al p = (r, p')" and c: "kvRemain p' \<noteq> kvRemain p" by simp_all
  from n c have ex: "\<exists>ev. r = Inr (ev, True)"
    by (cases rule: nextKV_cases) (auto dest: frame_fields)
  then show "\<exists>ev. r = Inr (ev, True)" .
  from ex n nextKV_produced show "kvRemain p' = kvRemain p - 1" by blast
qed

theorem failed_entry_keeps_count_witness:
  "fst (nextKV False (parserAt [1, 0, 0] defaultPolicy)) = Inl ErrUnexpectedEOF \<and>
   kvRemain (snd (nextKV False (parserAt [1, 0, 0] defaultPolicy))) = 1 \<and>
   kvRemain (parserAt [1, 0, 0] defaultPolicy) = 1"
proof -
  let ?p = "parserAt [1, 0, 0] defaultPolicy"
  obtain p' where n: "nextKV False ?p = (Inl ErrUnexpectedEOF, p')"
    using ex_truncated_fails by (cases "nextKV False ?p") auto
  from failed_entry_keeps_count [of False ?p, THEN conjunct1, rule_format, OF n]
  have "kvRemain p' = kvRemain ?p" by blast
  with n ex_truncated_fails show ?thesis by (simp add: parserAt_def)
qed

end
